theory Spec2Isabelle
  imports Main "HOL-Library.Word" "HOL-Library.Multiset"
begin

unbundle bit_operations_syntax

section \<open>Data model of ledmatrix.c\<close>

type_synonym u8 = "8 word"
type_synonym u16 = "16 word"

text \<open>
  The exceptions the module raises: \<open>mp_raise_ValueError\<close> and \<open>mp_raise_TypeError\<close> with
  their message, \<open>mp_raise_OSError\<close> with the \<open>esp_err_t\<close> code.
\<close>

datatype error = ValueError string | TypeError string | OSError nat

text \<open>
  Both \<open>ValueError\<close> and \<open>TypeError\<close> report a bad argument; \<open>OSError\<close> reports the
  allocator or the peripheral driver.
\<close>

fun invalid_argument :: "error \<Rightarrow> bool" where
  "invalid_argument (ValueError _) = True"
| "invalid_argument (TypeError _) = True"
| "invalid_argument (OSError _) = False"

text \<open>
  Pointers. The module only ever holds the null pointer, byte pointers into
  \<open>matrix.buffer[b].stream_data\<close> (buffer index and byte offset) and pointers to
  \<open>matrix.buffer[b].dma_desc[i]\<close> (buffer index and descriptor index).
\<close>

datatype ptr = NULL | StreamPtr nat nat | DescPtr nat nat

text \<open>\<open>ptr += block\<close> on a byte pointer into a stream.\<close>

fun ptr_add :: "ptr \<Rightarrow> nat \<Rightarrow> ptr" where
  "ptr_add (StreamPtr b off) n = StreamPtr b (off + n)"
| "ptr_add p n = p"

text \<open>
  The fields of the hardware descriptor \<open>lldesc_t\<close> that the module writes. \<open>size\<close> and
  \<open>length\<close> are its 12-bit fields.
\<close>

record lldesc =
  size_f :: nat
  length_f :: nat
  owner :: nat
  buf :: ptr
  stqe_next :: ptr

definition zero_desc :: lldesc where
  "zero_desc = \<lparr>size_f = 0, length_f = 0, owner = 0, buf = NULL, stqe_next = NULL\<rparr>"

record stream_buffer =
  stream_data :: "u8 list"
  dma_desc :: "lldesc list"

record matrix =
  buffer :: "stream_buffer list"
  dma_desc_count :: nat
  width :: u16
  height :: u16
  brightness :: u16
  mono_color :: "u8 list"
  rows :: u8
  color_depth :: u8
  backbuffer :: u8
  invert :: bool
  column_swap :: bool
  double_buffer :: bool
  single_chn :: bool
  initialized :: bool

text \<open>The state after \<open>memset(&matrix, 0, sizeof(matrix))\<close>: no buffer is allocated.\<close>

definition zero_matrix :: matrix where
  "zero_matrix =
     \<lparr>buffer = [\<lparr>stream_data = [], dma_desc = []\<rparr>, \<lparr>stream_data = [], dma_desc = []\<rparr>],
      dma_desc_count = 0, width = 0, height = 0, brightness = 0, mono_color = [0, 0, 0],
      rows = 0, color_depth = 0, backbuffer = 0, invert = False, column_swap = False,
      double_buffer = False, single_chn = False, initialized = False\<rparr>"

definition BITSTREAM_COLOR_BYTE :: nat where "BITSTREAM_COLOR_BYTE = 0"
definition BITSTREAM_CTRL_BYTE :: nat where "BITSTREAM_CTRL_BYTE = 1"
definition BITSTREAM_CTRL_OE_BIT :: nat where "BITSTREAM_CTRL_OE_BIT = 0"
definition BITSTREAM_CTRL_LAT_BIT :: nat where "BITSTREAM_CTRL_LAT_BIT = 1"
definition BITSTREAM_CTRL_ROW_START_BIT :: nat where "BITSTREAM_CTRL_ROW_START_BIT = 2"
definition BITSTREAM_COLOR_START_IO :: nat where "BITSTREAM_COLOR_START_IO = 0"
definition BITSTREAM_CTRL_OE_IO :: nat where "BITSTREAM_CTRL_OE_IO = 8"
definition BITSTREAM_CTRL_LAT_IO :: nat where "BITSTREAM_CTRL_LAT_IO = 9"
definition BITSTREAM_CTRL_ROW_START_IO :: nat where "BITSTREAM_CTRL_ROW_START_IO = 10"
definition BITSTREAM_ROWS_MAX :: nat where "BITSTREAM_ROWS_MAX = 6"
definition DMA_MAX_XFER_SIZE :: nat where "DMA_MAX_XFER_SIZE = 2 ^ 12 - 4"
definition COLOR_RGB565 :: int where "COLOR_RGB565 = 0"
definition COLOR_GS8 :: int where "COLOR_GS8 = 1"
definition COLOR_MONO :: int where "COLOR_MONO = 2"
definition ESP_ERR_NO_MEM :: nat where "ESP_ERR_NO_MEM = 257"

text \<open>\<open>size_t\<close> is 32 bits wide on the target: arithmetic in it is modulo \<open>2 ^ 32\<close>.\<close>

definition size_t :: "int \<Rightarrow> nat" where
  "size_t x = nat (x mod 2 ^ 32)"

section \<open>The control-byte pass\<close>

text \<open>
  The body of the innermost loop of \<open>create_control_pattern\<close>: the control byte for one
  pixel of one row. \<open>display_row\<close> is a \<open>uint8_t\<close>, so \<open>row - 1\<close> wraps at row 0.
\<close>

definition control_byte :: "matrix \<Rightarrow> nat \<Rightarrow> nat \<Rightarrow> u8" where
  "control_byte m row pixel =
     (let display_row = (of_nat row - 1 :: u8);
          ctrl = push_bit BITSTREAM_CTRL_ROW_START_BIT display_row;
          ctrl = (if pixel < 2 \<or> unat (brightness m) < pixel
                  then ctrl OR push_bit BITSTREAM_CTRL_OE_BIT 1 else ctrl);
          ctrl = (if int pixel = uint (width m) - 2
                  then ctrl OR push_bit BITSTREAM_CTRL_LAT_BIT 1 else ctrl)
      in if invert m then NOT ctrl else ctrl)"

text \<open>Byte offset of the stream word of \<open>(lvl, row, pixel)\<close> in \<open>stream_data\<close>.\<close>

definition px_offset :: "matrix \<Rightarrow> nat \<Rightarrow> nat \<Rightarrow> nat \<Rightarrow> nat" where
  "px_offset m lvl row pixel =
     (let row_stride = 2 * unat (width m);
          subimage_stride = row_stride * unat (rows m)
      in subimage_stride * lvl + row_stride * row + 2 * pixel)"

text \<open>The three nested loops of \<open>create_control_pattern\<close> over the bytes of one stream.\<close>

definition control_pass :: "matrix \<Rightarrow> u8 list \<Rightarrow> u8 list" where
  "control_pass m sd =
     fold (\<lambda>lvl. fold (\<lambda>row. fold (\<lambda>pixel sd.
             sd[px_offset m lvl row pixel + BITSTREAM_CTRL_BYTE := control_byte m row pixel])
           [0..<unat (width m)]) [0..<unat (rows m)]) [0..<unat (color_depth m)] sd"

text \<open>\<open>create_control_pattern(&matrix.buffer[b])\<close>.\<close>

definition create_control_pattern :: "matrix \<Rightarrow> nat \<Rightarrow> matrix" where
  "create_control_pattern m b =
     m\<lparr>buffer := (buffer m)[b := (buffer m ! b)
          \<lparr>stream_data := control_pass m (stream_data (buffer m ! b))\<rparr>]\<rparr>"

section \<open>Brightness\<close>

text \<open>
  A MicroPython object: a small int, or anything else (an integer too large for a small
  int included), which \<open>mp_obj_is_small_int\<close> tells apart.
\<close>

datatype mp_obj = SmallInt int | Obj

definition ledmatrix_set_brightness :: "matrix \<Rightarrow> mp_obj \<Rightarrow> error + matrix" where
  "ledmatrix_set_brightness m b =
     (if \<not> initialized m then Inl (ValueError ''ledmatrix not initialized'')
      else case b of
        Obj \<Rightarrow> Inl (TypeError ''expected small int'')
      | SmallInt newb \<Rightarrow>
          if newb < 0 \<or> uint (width m) - 1 \<le> newb
          then Inl (ValueError ''Brightness must be between 0 and width - 2'')
          else
            let m = m\<lparr>brightness := of_int (newb + 1)\<rparr>;
                m = create_control_pattern m 0;
                m = (if double_buffer m then create_control_pattern m 1 else m)
            in Inr m)"

section \<open>Pixel decoders and the colour-byte pass\<close>

text \<open>
  Results of C code that may have no defined value are options: \<open>None\<close> stands for
  undefined behaviour (a shift by a negative count, a read outside the framebuffer) and
  for a loop that never ends.
\<close>

text \<open>\<open>x >> n\<close> on an operand promoted to \<open>int\<close>: defined for \<open>0 \<le> n < 32\<close> only.\<close>

definition c_shr :: "'a::len word \<Rightarrow> int \<Rightarrow> 'a word option" where
  "c_shr x n = (if n < 0 \<or> 32 \<le> n then None else Some (drop_bit (nat n) x))"

text \<open>\<open>data[i]\<close> on the framebuffer the caller passed.\<close>

definition rd :: "'a list \<Rightarrow> nat \<Rightarrow> 'a option" where
  "rd data i = (if i < length data then Some (data ! i) else None)"

text \<open>
  The return expression that \<open>get_rgb565_bits\<close>, \<open>get_mono_color_bits\<close> and
  \<open>get_color_bits_gs8\<close> share:
  \<open>((r >> (7 - bit)) & 1) | (((g >> (7 - bit)) & 1) << 1) | (((b >> (7 - bit)) & 1) << 2)\<close>.
\<close>

definition color_bits3 :: "u8 \<Rightarrow> u8 \<Rightarrow> u8 \<Rightarrow> u8 \<Rightarrow> u8 option" where
  "color_bits3 r g b bitn =
     (case c_shr r (7 - uint bitn) of None \<Rightarrow> None | Some r' \<Rightarrow>
       (case c_shr g (7 - uint bitn) of None \<Rightarrow> None | Some g' \<Rightarrow>
         (case c_shr b (7 - uint bitn) of None \<Rightarrow> None | Some b' \<Rightarrow>
            Some ((r' AND 1) OR (push_bit 1 (g' AND 1) OR push_bit 2 (b' AND 1))))))"

definition get_rgb565_bits :: "u16 \<Rightarrow> u8 \<Rightarrow> u8 option" where
  "get_rgb565_bits color bitn =
     (let r = ucast (drop_bit 8 color) AND 0xf8;
          g = ucast (drop_bit 3 color) AND 0xfc;
          b = ucast (push_bit 3 color)
      in color_bits3 r g b bitn)"

definition get_mono_color_bits :: "matrix \<Rightarrow> u8 \<Rightarrow> u8 option" where
  "get_mono_color_bits m bitn =
     color_bits3 (mono_color m ! 0) (mono_color m ! 1) (mono_color m ! 2) bitn"

text \<open>
  A pixel decoder \<open>get_color_func\<close>: \<open>x\<close>, \<open>y\<close>, \<open>bit\<close> (here \<open>bitn\<close>) and the framebuffer. The decoders
  read the global \<open>matrix\<close>, which is their first argument here.
\<close>

type_synonym get_color_func = "matrix \<Rightarrow> nat \<Rightarrow> nat \<Rightarrow> u8 \<Rightarrow> u8 list \<Rightarrow> u8 option"

definition get_color_bits_mono_hlsb :: get_color_func where
  "get_color_bits_mono_hlsb m x y bitn data =
     (case rd data (drop_bit 3 x + drop_bit 3 (y * unat (width m))) of None \<Rightarrow> None
      | Some byte \<Rightarrow>
         (case c_shr (0x80 :: u8) (1 - int (x mod 8)) of None \<Rightarrow> None
          | Some msk \<Rightarrow> if byte AND msk \<noteq> 0 then get_mono_color_bits m bitn else Some 0))"

definition get_color_bits_rgb :: get_color_func where
  "get_color_bits_rgb m x y bitn data =
     (let i = y * unat (width m) + x in
      case rd data (2 * i) of None \<Rightarrow> None | Some lo \<Rightarrow>
        (case rd data (2 * i + 1) of None \<Rightarrow> None | Some hi \<Rightarrow>
           get_rgb565_bits (ucast lo OR push_bit 8 (ucast hi)) bitn))"

definition get_color_bits_gs8 :: get_color_func where
  "get_color_bits_gs8 m x y bitn data =
     (case rd data (y * unat (width m) + x) of None \<Rightarrow> None
      | Some v \<Rightarrow>
          let r = of_nat ((unat v * unat (mono_color m ! 0)) div 255);
              g = of_nat ((unat v * unat (mono_color m ! 1)) div 255);
              b = of_nat ((unat v * unat (mono_color m ! 2)) div 255)
          in color_bits3 r g b bitn)"

text \<open>A bounded \<open>for\<close> loop whose body may have no defined result.\<close>

fun fold_opt :: "('a \<Rightarrow> 's \<Rightarrow> 's option) \<Rightarrow> 'a list \<Rightarrow> 's \<Rightarrow> 's option" where
  "fold_opt f [] s = Some s"
| "fold_opt f (x # xs) s = (case f x s of None \<Rightarrow> None | Some s' \<Rightarrow> fold_opt f xs s')"

text \<open>The body of the innermost loop of \<open>update_framebuffer\<close>: the colour byte of one pixel.\<close>

definition color_byte :: "matrix \<Rightarrow> get_color_func \<Rightarrow> u8 list \<Rightarrow> nat \<Rightarrow> nat \<Rightarrow> nat \<Rightarrow> u8 option" where
  "color_byte m get_color_bits data lvl row pixel =
     (let source_px = (if column_swap m then unat ((of_nat pixel :: u16) XOR 1) else pixel);
          bitn = color_depth m - of_nat lvl - 1
      in case get_color_bits m source_px row bitn data of None \<Rightarrow> None
         | Some c \<Rightarrow>
            (case (if \<not> single_chn m
                   then (case get_color_bits m source_px (row + unat (rows m)) bitn data of
                           None \<Rightarrow> None | Some c2 \<Rightarrow> Some (c OR push_bit 3 c2))
                   else Some c) of
               None \<Rightarrow> None
             | Some c \<Rightarrow> Some (if invert m then NOT c else c)))"

definition update_framebuffer :: "matrix \<Rightarrow> u8 list \<Rightarrow> u8 list \<Rightarrow> get_color_func \<Rightarrow> u8 list option" where
  "update_framebuffer m sd data get_color_bits =
     fold_opt (\<lambda>lvl. fold_opt (\<lambda>row. fold_opt (\<lambda>pixel sd.
         case color_byte m get_color_bits data lvl row pixel of None \<Rightarrow> None
         | Some c \<Rightarrow> Some (sd[px_offset m lvl row pixel + BITSTREAM_COLOR_BYTE := c]))
       [0..<unat (width m)]) [0..<unat (rows m)]) [0..<unat (color_depth m)] sd"

section \<open>show\<close>

text \<open>The \<open>mono_color\<close> argument of \<open>show\<close>: stored when it is not negative.\<close>

definition set_mono_color :: "matrix \<Rightarrow> int \<Rightarrow> matrix" where
  "set_mono_color m color =
     (if 0 \<le> color
      then m\<lparr>mono_color := [word_of_int (drop_bit 16 color), word_of_int (drop_bit 8 color),
                              word_of_int color]\<rparr>
      else m)"

text \<open>
  The \<open>switch\<close> of \<open>ledmatrix_show\<close> on the mode: the new bytes of the stream \<open>sd\<close> of the
  backbuffer. A mode that is no \<open>case\<close> label falls through the \<open>switch\<close>.
\<close>

definition show_update :: "matrix \<Rightarrow> u8 list \<Rightarrow> u8 list \<Rightarrow> int \<Rightarrow> (error + u8 list) option" where
  "show_update m sd fb mode =
     (if mode = COLOR_RGB565 then
        (if length fb \<noteq> unat (width m) * unat (height m) * 2
         then Some (Inl (ValueError ''Unexpected buffer size''))
         else map_option Inr (update_framebuffer m sd fb get_color_bits_rgb))
      else if mode = COLOR_GS8 then
        (if length fb \<noteq> unat (width m) * unat (height m)
         then Some (Inl (ValueError ''Unexpected buffer size''))
         else map_option Inr (update_framebuffer m sd fb get_color_bits_gs8))
      else if mode = COLOR_MONO then
        (if length fb \<noteq> ((unat (width m) - 1) div 8 + 1) * unat (height m)
         then Some (Inl (ValueError ''Unexpected buffer size''))
         else map_option Inr (update_framebuffer m sd fb get_color_bits_mono_hlsb))
      else Some (Inr sd))"

text \<open>\<open>matrix.buffer[b].dma_desc[i].qe.stqe_next = p\<close>.\<close>

definition set_next :: "matrix \<Rightarrow> nat \<Rightarrow> nat \<Rightarrow> ptr \<Rightarrow> matrix" where
  "set_next m b i p =
     m\<lparr>buffer := (buffer m)[b := (buffer m ! b)
          \<lparr>dma_desc := (dma_desc (buffer m ! b))[i := (dma_desc (buffer m ! b) ! i)\<lparr>stqe_next := p\<rparr>]\<rparr>]\<rparr>"

definition ledmatrix_show :: "matrix \<Rightarrow> u8 list \<Rightarrow> int \<Rightarrow> int \<Rightarrow> (error + matrix) option" where
  "ledmatrix_show m fb color mode =
     (if \<not> initialized m then Some (Inl (ValueError ''ledmatrix not initialized''))
      else
        let m = set_mono_color m color;
            strm = unat (backbuffer m)
        in case show_update m (stream_data (buffer m ! strm)) fb mode of
             None \<Rightarrow> None
           | Some (Inl e) \<Rightarrow> Some (Inl e)
           | Some (Inr sd) \<Rightarrow>
               let m = m\<lparr>buffer := (buffer m)[strm := (buffer m ! strm)\<lparr>stream_data := sd\<rparr>]\<rparr>
               in Some (Inr
                 (if double_buffer m
                  then
                    let last = size_t (int (dma_desc_count m) - 1);
                        m = set_next m 0 last (DescPtr (unat (backbuffer m)) 0);
                        m = set_next m 1 last (DescPtr (unat (backbuffer m)) 0)
                    in m\<lparr>backbuffer := backbuffer m XOR 1\<rparr>
                  else m)))"

text \<open>A sequence of \<open>show\<close> calls, each with its framebuffer, colour and mode.\<close>

fun show_all :: "matrix \<Rightarrow> (u8 list \<times> int \<times> int) list \<Rightarrow> (error + matrix) option" where
  "show_all m [] = Some (Inr m)"
| "show_all m ((fb, color, mode) # cs) =
     (case ledmatrix_show m fb color mode of
        Some (Inr m') \<Rightarrow> show_all m' cs
      | r \<Rightarrow> r)"

text \<open>\<open>start_dma\<close> streams this buffer: the one that is not the backbuffer.\<close>

definition front_buffer :: "matrix \<Rightarrow> nat" where
  "front_buffer m = (if double_buffer m then unat (backbuffer m XOR 1) else 0)"

text \<open>
  What \<open>ledmatrix_init\<close> leaves behind for \<open>show\<close> (lemma \<open>init_rings_ok\<close>): two buffer
  slots, a backbuffer index that is 0 or 1, and in every allocated ring \<open>dma_desc_count\<close>
  descriptors, at least one.
\<close>

definition rings_ok :: "matrix \<Rightarrow> bool" where
  "rings_ok m \<longleftrightarrow>
     length (buffer m) = 2 \<and> unat (backbuffer m) < 2 \<and> 0 < dma_desc_count m
     \<and> dma_desc_count m < 2 ^ 32
     \<and> length (dma_desc (buffer m ! 0)) = dma_desc_count m
     \<and> (if double_buffer m then length (dma_desc (buffer m ! 1)) = dma_desc_count m else True)"

text \<open>
  The streams are allocated: \<open>stream_data\<close> of buffer 0, and of buffer 1 when
  double-buffered, has the \<open>color_depth * 2 * width * rows\<close> bytes that
  \<open>initialize_buffer\<close> allocates. The stream of an unallocated buffer is \<open>NULL\<close>, the
  empty list.
\<close>

definition streams_ok :: "matrix \<Rightarrow> bool" where
  "streams_ok m \<longleftrightarrow>
     length (stream_data (buffer m ! 0))
       = unat (color_depth m) * (2 * unat (width m) * unat (rows m))
     \<and> (if double_buffer m
        then length (stream_data (buffer m ! 1))
               = unat (color_depth m) * (2 * unat (width m) * unat (rows m))
        else True)"

section \<open>Building the descriptor ring\<close>

text \<open>
  The collaborators outside this file. \<open>heap_caps_malloc\<close> tells whether the request for
  the stream or the descriptors of a buffer, of the given size, succeeds; the parallel
  driver returns an \<open>esp_err_t\<close>, 0 being \<open>ESP_OK\<close>. \<open>sizeof_lldesc\<close> is
  \<open>sizeof(lldesc_t)\<close> and \<open>gpios_bus_size\<close> the length of \<open>cfg.gpios_bus\<close>, both declared in
  headers of the platform.
\<close>

datatype alloc_site = StreamData nat | DmaDesc nat

record i2s_parallel_config =
  gpios_bus :: "int list"
  gpio_clk :: int
  sample_rate :: int

record env =
  heap_caps_malloc :: "alloc_site \<Rightarrow> nat \<Rightarrow> bool"
  sizeof_lldesc :: nat
  gpios_bus_size :: nat
  i2s_parallel_driver_install :: "i2s_parallel_config \<Rightarrow> bool \<Rightarrow> nat"
  i2s_parallel_send_dma :: "ptr \<Rightarrow> nat"

text \<open>
  The \<open>while\<close> loop of \<open>initialize_buffer\<close> that looks for the next free entry, wrapping
  around. It does not end when every entry it visits is taken.
\<close>

partial_function (option) find_free :: "lldesc list \<Rightarrow> nat \<Rightarrow> nat \<Rightarrow> nat \<Rightarrow> nat option" where
  "find_free ds per cnt pos =
     (if pos < length ds then
        (if buf (ds ! pos) \<noteq> NULL
         then find_free ds per cnt
                (if cnt \<le> size_t (int pos + int per) then 0 else size_t (int pos + int per))
         else Some pos)
      else None)"

declare find_free.simps [code]

text \<open>
  The body of the loop over \<open>k\<close>: the position of the \<open>k\<close>-th of the \<open>n = 1 << i\<close> copies of
  subimage \<open>i\<close>, rounded down to a multiple of \<open>dma_entries_per_subimage\<close>, then the next
  free entry, which gets the address of the subimage.
\<close>

definition place :: "nat \<Rightarrow> nat \<Rightarrow> nat \<Rightarrow> nat \<Rightarrow> nat \<Rightarrow> nat \<Rightarrow> lldesc list \<Rightarrow> lldesc list option" where
  "place b cnt per stride i k ds =
     (let n = size_t (2 ^ i);
          pos = size_t (int (size_t (int cnt * int k) div n) + int (cnt div n div 2));
          pos = pos div per;
          pos = size_t (int pos * int per)
      in case find_free ds per cnt pos of
           None \<Rightarrow> None
         | Some pos \<Rightarrow> Some (ds[pos := (ds ! pos)\<lparr>buf := StreamPtr b (size_t (int stride * int i))\<rparr>]))"

text \<open>The loops over \<open>i < color_depth - 1\<close> and \<open>k < n\<close>.\<close>

definition place_levels :: "nat \<Rightarrow> nat \<Rightarrow> nat \<Rightarrow> nat \<Rightarrow> nat \<Rightarrow> lldesc list \<Rightarrow> lldesc list option" where
  "place_levels b cnt per stride D ds =
     fold_opt (\<lambda>i. fold_opt (\<lambda>k. place b cnt per stride i k) [0..<size_t (2 ^ i)])
       [0..<size_t (int D - 1)] ds"

text \<open>
  The \<open>while (remaining)\<close> loop: one descriptor per block of at most \<open>DMA_MAX_XFER_SIZE\<close>
  bytes. The result holds the index after the last descriptor written, where the \<open>for\<close>
  loop goes on. A write behind the end of the descriptor array has no defined result.
\<close>

function fill_blocks :: "lldesc list \<Rightarrow> nat \<Rightarrow> ptr \<Rightarrow> nat \<Rightarrow> (lldesc list \<times> nat) option" where
  "fill_blocks ds i p remaining =
     (if remaining = 0 then Some (ds, i)
      else if i < length ds then
        fill_blocks
          (ds[i := (ds ! i)\<lparr>buf := p, length_f := min remaining DMA_MAX_XFER_SIZE,
                              size_f := min remaining DMA_MAX_XFER_SIZE, owner := 1\<rparr>])
          (i + 1) (ptr_add p (min remaining DMA_MAX_XFER_SIZE))
          (remaining - min remaining DMA_MAX_XFER_SIZE)
      else None)"
  by pat_completeness auto
termination
  by (relation "measure (\<lambda>(ds, i, p, remaining). remaining)")
     (auto simp: DMA_MAX_XFER_SIZE_def)

text \<open>
  The \<open>for\<close> loop that fills the remaining entries with the last subimage and splits every
  subimage into blocks. Its index is advanced by the inner loop; with an empty subimage
  it would stay where it is and the loop would not end.
\<close>

partial_function (option) fill_loop :: "nat \<Rightarrow> nat \<Rightarrow> nat \<Rightarrow> nat \<Rightarrow> lldesc list \<Rightarrow> nat \<Rightarrow> lldesc list option" where
  "fill_loop b cnt stride D ds i =
     (if i < cnt then
        (if i < length ds then
           (case fill_blocks
              (if buf (ds ! i) = NULL
               then ds[i := (ds ! i)\<lparr>buf := StreamPtr b (size_t (int stride * (int D - 1)))\<rparr>]
               else ds)
              i
              (if buf (ds ! i) = NULL then StreamPtr b (size_t (int stride * (int D - 1)))
               else buf (ds ! i))
              stride of
             None \<Rightarrow> None
           | Some r \<Rightarrow> fill_loop b cnt stride D (fst r) (snd r))
         else None)
      else Some ds)"

declare fill_loop.simps [code]

text \<open>The loop that links every descriptor to the next, and the closing of the ring.\<close>

definition link_ring :: "nat \<Rightarrow> nat \<Rightarrow> lldesc list \<Rightarrow> lldesc list" where
  "link_ring b cnt ds =
     (let ds = fold (\<lambda>i ds. ds[i := (ds ! i)\<lparr>stqe_next := DescPtr b (i + 1)\<rparr>])
                 [0..<size_t (int cnt - 1)] ds
      in ds[size_t (int cnt - 1) := (ds ! size_t (int cnt - 1))\<lparr>stqe_next := DescPtr b 0\<rparr>])"

text \<open>
  \<open>initialize_buffer(&matrix.buffer[b])\<close>. \<open>1 << matrix.color_depth\<close> is a shift of an
  \<open>int\<close>, undefined from 31 bits on.
\<close>

definition initialize_buffer :: "env \<Rightarrow> matrix \<Rightarrow> nat \<Rightarrow> (error + matrix) option" where
  "initialize_buffer env m b =
     (let subimage_stride = 2 * unat (width m) * unat (rows m);
          buffersize = size_t (int subimage_stride * int (unat (color_depth m)));
          dma_entries_per_subimage = size_t (int subimage_stride - 1) div DMA_MAX_XFER_SIZE + 1
      in if 31 \<le> unat (color_depth m) then None
         else
           let cnt = size_t ((2 ^ unat (color_depth m) - 1) * int dma_entries_per_subimage);
               m = m\<lparr>dma_desc_count := cnt\<rparr>
           in if \<not> heap_caps_malloc env (StreamData b) buffersize
                 \<or> \<not> heap_caps_malloc env (DmaDesc b) (size_t (int cnt * int (sizeof_lldesc env)))
              then Some (Inl (OSError ESP_ERR_NO_MEM))
              else
                (case place_levels b cnt dma_entries_per_subimage subimage_stride
                        (unat (color_depth m)) (replicate cnt zero_desc) of
                   None \<Rightarrow> None
                 | Some ds \<Rightarrow>
                    (case fill_loop b cnt subimage_stride (unat (color_depth m)) ds 0 of
                       None \<Rightarrow> None
                     | Some ds \<Rightarrow>
                         Some (Inr (m\<lparr>buffer := (buffer m)[b :=
                           \<lparr>stream_data = replicate buffersize (if invert m then 0xff else 0),
                            dma_desc = link_ring b cnt ds\<rparr>]\<rparr>)))))"

section \<open>init\<close>

record init_args =
  arg_io_colors :: "mp_obj list"
  arg_io_rows :: "mp_obj list"
  arg_io_oe :: int
  arg_io_lat :: int
  arg_io_clk :: int
  arg_width :: int
  arg_color_depth :: int
  arg_clock_speed_khz :: int
  arg_invert :: bool
  arg_double_buffer :: bool
  arg_column_swap :: bool
  arg_single_channel :: bool
  arg_brightness :: int

text \<open>
  The loop over \<open>io_colors\<close>: it stops silently at the seventh item. The result is
  \<open>iteridx\<close> and the bus pins.
\<close>

fun read_colors :: "mp_obj list \<Rightarrow> nat \<Rightarrow> int list \<Rightarrow> error + (nat \<times> int list)" where
  "read_colors [] iteridx bus = Inr (iteridx, bus)"
| "read_colors (item # items) iteridx bus =
     (if 6 \<le> iteridx then Inr (iteridx, bus)
      else case item of
        Obj \<Rightarrow> Inl (TypeError ''values of io_colors must be ints'')
      | SmallInt v \<Rightarrow>
          read_colors items (iteridx + 1) (bus[BITSTREAM_COLOR_START_IO + iteridx := v]))"

text \<open>The loop over \<open>io_rows\<close>: a seventh item is an error.\<close>

fun read_rows :: "mp_obj list \<Rightarrow> nat \<Rightarrow> int list \<Rightarrow> error + (nat \<times> int list)" where
  "read_rows [] iteridx bus = Inr (iteridx, bus)"
| "read_rows (item # items) iteridx bus =
     (if BITSTREAM_ROWS_MAX \<le> iteridx then Inl (ValueError ''Too many values given for io_rows'')
      else case item of
        Obj \<Rightarrow> Inl (TypeError ''values of io_rows must be ints'')
      | SmallInt v \<Rightarrow>
          read_rows items (iteridx + 1) (bus[BITSTREAM_CTRL_ROW_START_IO + iteridx := v]))"

text \<open>
  The first part of \<open>ledmatrix_init\<close>, up to the call of \<open>initialize_buffer\<close>: the checks
  of the arguments, the fields of \<open>matrix\<close> and the configuration of the driver. It starts
  from the zeroed \<open>matrix\<close> that \<open>deinit\<close> leaves.
\<close>

definition init_config :: "nat \<Rightarrow> init_args \<Rightarrow> error + (matrix \<times> i2s_parallel_config)" where
  "init_config bus_size a =
     (let m = zero_matrix\<lparr>width := word_of_int (arg_width a),
                          color_depth := word_of_int (arg_color_depth a),
                          invert := arg_invert a, double_buffer := arg_double_buffer a,
                          column_swap := arg_column_swap a, single_chn := arg_single_channel a\<rparr>
      in if width m AND 1 \<noteq> 0 then Inl (ValueError ''width must be an even number'')
         else if 0 < arg_brightness a
                 \<and> uint (width m) - 1 \<le> uint (word_of_int (arg_brightness a) :: u16)
         then Inl (ValueError ''Brightness must be between 0 and width - 2'')
         else
           let m = m\<lparr>brightness := (if 0 < arg_brightness a
                                      then word_of_int (arg_brightness a) + 1
                                      else width m - 1)\<rparr>
           in if color_depth m = 0 then Inl (ValueError ''invalid value for color depth'')
              else
                let bus = replicate bus_size (- 1);
                    bus = bus[BITSTREAM_CTRL_OE_IO := arg_io_oe a];
                    bus = bus[BITSTREAM_CTRL_LAT_IO := arg_io_lat a]
                in case read_colors (arg_io_colors a) 0 bus of
                     Inl e \<Rightarrow> Inl e
                   | Inr (iteridx, bus) \<Rightarrow>
                       if (single_chn m \<and> iteridx \<noteq> 3) \<or> (\<not> single_chn m \<and> iteridx \<noteq> 6)
                       then Inl (ValueError ''Unexpected number of color io lines'')
                       else
                         (case read_rows (arg_io_rows a) 0 bus of
                            Inl e \<Rightarrow> Inl e
                          | Inr (iteridx, bus) \<Rightarrow>
                              let m = m\<lparr>rows := push_bit iteridx 1\<rparr>;
                                  m = m\<lparr>height := (if single_chn m then ucast (rows m)
                                                    else push_bit 1 (ucast (rows m)))\<rparr>;
                                  m = m\<lparr>backbuffer := 0, mono_color := [0xff, 0xff, 0xff]\<rparr>
                              in Inr (m, \<lparr>gpios_bus = bus, gpio_clk = arg_io_clk a,
                                          sample_rate = arg_clock_speed_khz a * 1000\<rparr>)))"

text \<open>\<open>start_dma\<close>.\<close>

definition start_dma :: "env \<Rightarrow> matrix \<Rightarrow> (error + matrix) option" where
  "start_dma env m =
     (let b = (if double_buffer m then unat (backbuffer m XOR 1) else 0);
          err = i2s_parallel_send_dma env (DescPtr b 0)
      in if err \<noteq> 0 then Some (Inl (OSError err)) else Some (Inr m))"

text \<open>
  \<open>ledmatrix_init\<close>. The wait of \<open>stop_dma\<close> for the peripheral, in the \<open>deinit\<close> at its
  start, is left to the hardware.
\<close>

definition ledmatrix_init :: "env \<Rightarrow> init_args \<Rightarrow> (error + matrix) option" where
  "ledmatrix_init env a =
     (case init_config (gpios_bus_size env) a of
        Inl e \<Rightarrow> Some (Inl e)
      | Inr (m, cfg) \<Rightarrow>
         (case initialize_buffer env m 0 of
            None \<Rightarrow> None
          | Some (Inl e) \<Rightarrow> Some (Inl e)
          | Some (Inr m) \<Rightarrow>
             (case (if double_buffer m
                    then (case initialize_buffer env (create_control_pattern m 0) 1 of
                            None \<Rightarrow> None
                          | Some (Inl e) \<Rightarrow> Some (Inl e)
                          | Some (Inr m) \<Rightarrow> Some (Inr ((create_control_pattern m 1)\<lparr>backbuffer := 1\<rparr>)))
                    else Some (Inr (create_control_pattern m 0))) of
                None \<Rightarrow> None
              | Some (Inl e) \<Rightarrow> Some (Inl e)
              | Some (Inr m) \<Rightarrow>
                  if i2s_parallel_driver_install env cfg (invert m) \<noteq> 0
                  then Some (Inl (OSError (i2s_parallel_driver_install env cfg (invert m))))
                  else start_dma env (m\<lparr>initialized := True\<rparr>))))"

section \<open>Notions for the descriptor ring\<close>

text \<open>The number of blocks of at most \<open>DMA_MAX_XFER_SIZE\<close> bytes that \<open>r\<close> bytes take: \<open>r / 4092\<close>, rounded up.\<close>

definition blocks :: "nat \<Rightarrow> nat" where
  "blocks r = (r + (DMA_MAX_XFER_SIZE - 1)) div DMA_MAX_XFER_SIZE"

text \<open>
  The ring in units of one subimage: the \<open>buf\<close> pointers of the first descriptor of every
  slot of \<open>per\<close> descriptors.
\<close>

definition slot_bufs :: "nat \<Rightarrow> lldesc list \<Rightarrow> ptr list" where
  "slot_bufs per ds = map (\<lambda>q. buf (ds ! (q * per))) [0..<length ds div per]"

text \<open>
  How often subimage \<open>l\<close> appears in the ring of buffer \<open>b\<close>: the number of slots whose
  first descriptor points at the start of subimage \<open>l\<close>.
\<close>

definition appearances :: "matrix \<Rightarrow> nat \<Rightarrow> nat \<Rightarrow> nat" where
  "appearances m b l =
     (let stride = 2 * unat (width m) * unat (rows m)
      in count_list (slot_bufs (blocks stride) (dma_desc (buffer m ! b))) (StreamPtr b (stride * l)))"

text \<open>The pointers that the placement loop has written when it has finished the levels below \<open>i\<close>.\<close>

fun placed :: "nat \<Rightarrow> nat \<Rightarrow> nat \<Rightarrow> ptr multiset" where
  "placed b stride 0 = {#}"
| "placed b stride (Suc i) = placed b stride i + replicate_mset (2 ^ i) (StreamPtr b (stride * i))"

text \<open>
  The invariant of the placement loop: the slots hold the pointers placed so far, the
  others are still null.
\<close>

definition ring_inv :: "nat \<Rightarrow> nat \<Rightarrow> lldesc list \<Rightarrow> ptr multiset \<Rightarrow> bool" where
  "ring_inv S per ds M \<longleftrightarrow>
     length ds = S * per \<and> size M \<le> S
     \<and> mset (slot_bufs per ds) = replicate_mset (S - size M) NULL + M"

text \<open>The value that \<open>initialize_buffer\<close> computes for \<open>dma_desc_count\<close>.\<close>

definition ring_size :: "matrix \<Rightarrow> nat" where
  "ring_size m =
     size_t ((2 ^ unat (color_depth m) - 1)
        * int (size_t (int (2 * unat (width m) * unat (rows m)) - 1) div DMA_MAX_XFER_SIZE + 1))"

text \<open>The pointer that the fill loop finds or puts into the first descriptor of a slot.\<close>

definition fill_ptr :: "nat \<Rightarrow> nat \<Rightarrow> nat \<Rightarrow> ptr \<Rightarrow> ptr" where
  "fill_ptr b stride D p =
     (if p = NULL then StreamPtr b (size_t (int stride * (int D - 1))) else p)"

section \<open>Concrete states used to instantiate the theorems\<close>

text \<open>A 4 x 2 single-channel panel with one row pin, one bit of colour, inverted outputs.\<close>

definition small_matrix :: matrix where
  "small_matrix = zero_matrix\<lparr>width := 4, height := 2, brightness := 3, rows := 2,
     color_depth := 1, single_chn := True, invert := True\<rparr>"

text \<open>
  A double-buffered 2 x 1 single-channel panel without row pins and with one bit of colour,
  as \<open>ledmatrix_init\<close> leaves it: both streams hold the control bytes, both rings have one
  descriptor linked to itself, and the backbuffer is buffer 1.
\<close>

definition db_matrix :: matrix where
  "db_matrix =
     \<lparr>buffer =
        [\<lparr>stream_data = [0, 0xFF, 0, 0xFD],
          dma_desc = [\<lparr>size_f = 4, length_f = 4, owner = 1, buf = StreamPtr 0 0,
                       stqe_next = DescPtr 0 0\<rparr>]\<rparr>,
         \<lparr>stream_data = [0, 0xFF, 0, 0xFD],
          dma_desc = [\<lparr>size_f = 4, length_f = 4, owner = 1, buf = StreamPtr 1 0,
                       stqe_next = DescPtr 1 0\<rparr>]\<rparr>],
      dma_desc_count = 1, width = 2, height = 1, brightness = 1,
      mono_color = [0xFF, 0xFF, 0xFF], rows = 1, color_depth = 1, backbuffer = 1,
      invert = False, column_swap = True, double_buffer = True, single_chn = True,
      initialized = True\<rparr>"

text \<open>Two RGB565 framebuffers for that panel, all black and all white.\<close>

definition fbA :: "u8 list" where "fbA = [0, 0, 0, 0]"
definition fbB :: "u8 list" where "fbB = [0xFF, 0xFF, 0xFF, 0xFF]"

text \<open>The state after \<open>show(fbA)\<close>, and after \<open>show(fbA)\<close> then \<open>show(fbB)\<close>.\<close>

definition db_matrix_A :: matrix where
  "db_matrix_A = (case ledmatrix_show db_matrix fbA (- 1) COLOR_RGB565 of
                    Some (Inr m) \<Rightarrow> m | _ \<Rightarrow> zero_matrix)"

definition db_matrix_AB :: matrix where
  "db_matrix_AB = (case ledmatrix_show db_matrix_A fbB (- 1) COLOR_RGB565 of
                    Some (Inr m) \<Rightarrow> m | _ \<Rightarrow> zero_matrix)"

text \<open>Collaborators that never fail: every allocation succeeds, the driver returns \<open>ESP_OK\<close>.\<close>

definition env_ok :: env where
  "env_ok = \<lparr>heap_caps_malloc = (\<lambda>site n. True), sizeof_lldesc = 12, gpios_bus_size = 24,
              i2s_parallel_driver_install = (\<lambda>cfg inv. 0), i2s_parallel_send_dma = (\<lambda>p. 0)\<rparr>"

text \<open>The arguments of \<open>init\<close> for the 2 x 1 double-buffered panel \<open>db_matrix\<close>.\<close>

definition db_args :: init_args where
  "db_args = \<lparr>arg_io_colors = [SmallInt 2, SmallInt 4, SmallInt 5], arg_io_rows = [],
               arg_io_oe = 12, arg_io_lat = 13, arg_io_clk = 14, arg_width = 2,
               arg_color_depth = 1, arg_clock_speed_khz = 2500, arg_invert = False,
               arg_double_buffer = True, arg_column_swap = True, arg_single_channel = True,
               arg_brightness = - 1\<rparr>"

text \<open>The call returned normally.\<close>

definition returns :: "(error + 'a) option \<Rightarrow> bool" where
  "returns r = (case r of Some (Inr x) \<Rightarrow> True | _ \<Rightarrow> False)"

text \<open>A single-buffered panel of width 4 asked for brightness 0, and what \<open>init\<close> makes of it.\<close>

definition dim_args :: init_args where
  "dim_args = db_args\<lparr>arg_width := 4, arg_brightness := 0, arg_double_buffer := False\<rparr>"

definition dim_matrix :: matrix where
  "dim_matrix = (case ledmatrix_init env_ok dim_args of Some (Inr m) \<Rightarrow> m | _ \<Rightarrow> zero_matrix)"

text \<open>A double-buffered panel of width 4 with one row pin, and what \<open>init\<close> makes of it.\<close>

definition db4_args :: init_args where
  "db4_args = db_args\<lparr>arg_width := 4, arg_io_rows := [SmallInt 7]\<rparr>"

definition db4_matrix :: matrix where
  "db4_matrix = (case ledmatrix_init env_ok db4_args of Some (Inr m) \<Rightarrow> m | _ \<Rightarrow> zero_matrix)"

text \<open>A 4 x 2 geometry with three bits of colour: seven slots of one descriptor.\<close>

definition geo3 :: matrix where
  "geo3 = zero_matrix\<lparr>width := 4, rows := 2, color_depth := 3\<rparr>"

text \<open>The index triples \<open>(lvl, row, pixel)\<close> in the order the nested loops visit them.\<close>

definition triples :: "matrix \<Rightarrow> (nat \<times> nat \<times> nat) list" where
  "triples m = List.product [0..<unat (color_depth m)]
     (List.product [0..<unat (rows m)] [0..<unat (width m)])"

section \<open>Writes of the nested loops\<close>

lemma length_fold_upd: "length (fold (\<lambda>k sd. sd[f k := g k]) ks sd) = length sd"
  by (induction ks arbitrary: sd) auto

lemma fold_upd_other:
  "i \<notin> f ` set ks \<Longrightarrow> fold (\<lambda>k sd. sd[f k := g k]) ks sd ! i = sd ! i"
  by (induction ks arbitrary: sd) auto

lemma fold_upd_hit:
  "inj_on f (set ks) \<Longrightarrow> k0 \<in> set ks \<Longrightarrow> f k0 < length sd \<Longrightarrow>
   fold (\<lambda>k sd. sd[f k := g k]) ks sd ! f k0 = g k0"
proof (induction ks arbitrary: sd)
  case Nil
  then show ?case by simp
next
  case (Cons k ks)
  show ?case
  proof (cases "k0 \<in> set ks")
    case True
    with Cons show ?thesis by simp
  next
    case False
    with Cons.prems have k: "k0 = k" by simp
    from Cons.prems(1) False k have "f k0 \<notin> f ` set ks" by auto
    then have "fold (\<lambda>k sd. sd[f k := g k]) ks (sd[f k := g k]) ! f k0 = sd[f k := g k] ! f k0"
      by (rule fold_upd_other)
    with k Cons.prems(3) show ?thesis by simp
  qed
qed

lemma fold_product:
  "fold (\<lambda>a. fold (\<lambda>b. h a b) bs) as s = fold (\<lambda>(a, b). h a b) (List.product as bs) s"
  by (induction as arbitrary: s) (simp_all add: fold_map comp_def)

lemma fold_product3:
  "fold (\<lambda>a. fold (\<lambda>b. fold (\<lambda>c. h a b c) cs) bs) as s =
   fold (\<lambda>(a, b, c). h a b c) (List.product as (List.product bs cs)) s"
proof (induction as arbitrary: s)
  case Nil
  show ?case by simp
next
  case (Cons a as)
  have "fold (\<lambda>b. fold (\<lambda>c. h a b c) cs) bs s =
        fold (\<lambda>(b, c). h a b c) (List.product bs cs) s"
    by (rule fold_product)
  also have "\<dots> = fold (\<lambda>(a, b, c). h a b c) (map (Pair a) (List.product bs cs)) s"
    by (simp add: fold_map comp_def case_prod_unfold)
  finally show ?case by (simp add: Cons.IH)
qed

lemma divmod_unique:
  fixes a :: nat
  assumes "a * q + r = a * q' + r'" "r < a" "r' < a"
  shows "q = q' \<and> r = r'"
proof -
  from assms(1) have "(a * q + r) div a = (a * q' + r') div a" by simp
  with assms(2,3) have "q = q'" by simp
  with assms(1) show ?thesis by simp
qed

lemma px_offset_inj:
  assumes "px_offset m l r p = px_offset m l' r' p'"
    and "r < unat (rows m)" "r' < unat (rows m)" "p < unat (width m)" "p' < unat (width m)"
  shows "l = l' \<and> r = r' \<and> p = p'"
proof -
  define W where "W = unat (width m)"
  define R where "R = unat (rows m)"
  have eq: "2 * W * R * l + 2 * W * r + 2 * p = 2 * W * R * l' + 2 * W * r' + 2 * p'"
    using assms(1) by (simp add: px_offset_def Let_def W_def R_def)
  then have "W * (R * l + r) + p = W * (R * l' + r') + p'"
    by (simp add: algebra_simps)
  with assms(4,5) have a: "R * l + r = R * l' + r'" and b: "p = p'"
    using divmod_unique [of W "R * l + r" p "R * l' + r'" p'] by (simp_all add: W_def)
  from a assms(2,3) have "l = l' \<and> r = r'"
    using divmod_unique [of R l r l' r'] by (simp add: R_def)
  with b show ?thesis by simp
qed

lemma px_offset_bound:
  assumes "l < unat (color_depth m)" "r < unat (rows m)" "p < unat (width m)"
  shows "px_offset m l r p + 1 < unat (color_depth m) * (2 * unat (width m) * unat (rows m))"
proof -
  define W where "W = unat (width m)"
  define R where "R = unat (rows m)"
  define D where "D = unat (color_depth m)"
  have "2 * p + 2 \<le> 2 * W" using assms(3) by (simp add: W_def)
  moreover have "2 * W * r + 2 * W \<le> 2 * W * R"
  proof -
    have "Suc r \<le> R" using assms(2) by (simp add: R_def)
    then have "2 * W * Suc r \<le> 2 * W * R" by (rule mult_le_mono2)
    then show ?thesis by simp
  qed
  moreover have "2 * W * R * l + 2 * W * R \<le> 2 * W * R * D"
  proof -
    have "Suc l \<le> D" using assms(1) by (simp add: D_def)
    then have "2 * W * R * Suc l \<le> 2 * W * R * D" by (rule mult_le_mono2)
    then show ?thesis by simp
  qed
  ultimately have "2 * W * R * l + 2 * W * r + 2 * p + 2 \<le> 2 * W * R * D" by linarith
  then show ?thesis
    by (simp add: px_offset_def Let_def W_def R_def D_def algebra_simps)
qed

lemma control_pass_flat:
  "control_pass m sd =
     fold (\<lambda>k sd. sd[(\<lambda>(l, r, p). px_offset m l r p + BITSTREAM_CTRL_BYTE) k
                      := (\<lambda>(l, r, p). control_byte m r p) k]) (triples m) sd"
  unfolding control_pass_def triples_def fold_product3 by (simp add: case_prod_unfold)

lemma control_pass_nth:
  assumes "l < unat (color_depth m)" "r < unat (rows m)" "p < unat (width m)"
    and "unat (color_depth m) * (2 * unat (width m) * unat (rows m)) \<le> length sd"
  shows "control_pass m sd ! (px_offset m l r p + BITSTREAM_CTRL_BYTE) = control_byte m r p"
proof -
  let ?f = "\<lambda>(l, r, p). px_offset m l r p + BITSTREAM_CTRL_BYTE"
  let ?g = "\<lambda>(l, r, p). control_byte m r p"
  have inj: "inj_on ?f (set (triples m))"
    by (auto simp: inj_on_def triples_def dest: px_offset_inj)
  have mem: "(l, r, p) \<in> set (triples m)"
    using assms(1-3) by (simp add: triples_def)
  have len: "?f (l, r, p) < length sd"
    using px_offset_bound [OF assms(1-3)] assms(4) by (simp add: BITSTREAM_CTRL_BYTE_def)
  from fold_upd_hit [of ?f "triples m" "(l, r, p)" sd ?g, OF inj mem len]
  show ?thesis by (simp add: control_pass_flat)
qed

lemma control_pass_even:
  "control_pass m sd ! (2 * i) = sd ! (2 * i)"
proof -
  let ?f = "\<lambda>(l, r, p). px_offset m l r p + BITSTREAM_CTRL_BYTE"
  have "2 * i \<notin> ?f ` set (triples m)"
  proof
    assume "2 * i \<in> ?f ` set (triples m)"
    then obtain l r p where "2 * i = px_offset m l r p + 1"
      by (auto simp: BITSTREAM_CTRL_BYTE_def)
    then have "2 * i = 2 * (unat (width m) * unat (rows m) * l + unat (width m) * r + p) + 1"
      by (simp add: px_offset_def Let_def algebra_simps)
    then show False by presburger
  qed
  then show ?thesis
    unfolding control_pass_flat by (rule fold_upd_other)
qed

lemma length_control_pass: "length (control_pass m sd) = length sd"
  unfolding control_pass_flat by (rule length_fold_upd)


lemma control_byte_plain:
  "control_byte (m\<lparr>invert := False\<rparr>) row pixel =
     (push_bit 2 (of_nat row - 1) OR (if pixel < 2 \<or> unat (brightness m) < pixel then 1 else 0))
       OR (if int pixel = uint (width m) - 2 then 2 else 0)"
  by (simp add: control_byte_def Let_def BITSTREAM_CTRL_ROW_START_BIT_def
      BITSTREAM_CTRL_OE_BIT_def BITSTREAM_CTRL_LAT_BIT_def)

lemma control_byte_invert:
  "control_byte m row pixel =
     (if invert m then NOT (control_byte (m\<lparr>invert := False\<rparr>) row pixel)
      else control_byte (m\<lparr>invert := False\<rparr>) row pixel)"
  by (simp add: control_byte_def Let_def)

lemma ctrl_bit0: "bit ((push_bit 2 (x::u8) OR (if oe then 1 else 0)) OR (if lat then 2 else 0)) 0 \<longleftrightarrow> oe"
  by (simp add: bit_simps)

lemma ctrl_bit1: "bit ((push_bit 2 (x::u8) OR (if oe then 1 else 0)) OR (if lat then 2 else 0)) (Suc 0) \<longleftrightarrow> lat"
  by (simp add: bit_simps)

lemma ctrl_row_field:
  "a \<le> 6 \<Longrightarrow>
   take_bit a (drop_bit 2 ((push_bit 2 (x::u8) OR (if oe then 1 else 0)) OR (if lat then 2 else 0)))
     = take_bit a x"
  by (rule bit_word_eqI) (auto simp add: bit_simps)

lemma uint_display_row:
  assumes "a \<le> 6"
  shows "uint (take_bit a (of_nat row - 1 :: u8)) = (int row - 1) mod 2 ^ a"
proof -
  have "(of_nat row - 1 :: u8) = word_of_int (int row - 1)" by simp
  then have u: "uint (of_nat row - 1 :: u8) = (int row - 1) mod 2 ^ 8"
    by (simp only: uint_word_of_int_eq take_bit_eq_mod) simp
  have d: "(2::int) ^ a dvd 2 ^ 8" using assms by (intro le_imp_power_dvd) simp
  have "uint (take_bit a (of_nat row - 1 :: u8)) = take_bit a (uint (of_nat row - 1 :: u8))"
    by (simp only: unsigned_take_bit_eq)
  also have "\<dots> = (int row - 1) mod 2 ^ 8 mod 2 ^ a"
    by (simp only: u take_bit_eq_mod)
  also have "\<dots> = (int row - 1) mod 2 ^ a"
    using d by (rule mod_mod_cancel)
  finally show ?thesis .
qed

text \<open>
  C2. For every level \<open>l\<close>, row and pixel of the geometry, the byte that the control-byte
  pass leaves in the control byte of that stream word is the plain control byte, or its
  bitwise complement when \<open>invert\<close> is set. In the plain byte the first \<open>a\<close> bits of the
  row-address field (the ones wired to the \<open>a\<close> row pins, \<open>rows = 2 ^ a\<close>) hold
  \<open>(row - 1) mod rows\<close>, the OE bit is set exactly when \<open>pixel < 2\<close> or
  \<open>pixel > brightness\<close>, and the LAT bit is set exactly when \<open>pixel = width - 2\<close>.
\<close>

theorem control_byte_fields:
  assumes "l < unat (color_depth m)" and "row < unat (rows m)" and "pixel < unat (width m)"
    and "unat (rows m) = 2 ^ a" and "a \<le> 6"
    and "length sd = unat (color_depth m) * (2 * unat (width m) * unat (rows m))"
  shows "let off = px_offset m l row pixel + BITSTREAM_CTRL_BYTE;
             written = control_pass m sd ! off;
             plain = control_pass (m\<lparr>invert := False\<rparr>) sd ! off
         in uint (take_bit a (drop_bit BITSTREAM_CTRL_ROW_START_BIT plain))
              = (int row - 1) mod int (unat (rows m))
          \<and> (bit plain BITSTREAM_CTRL_OE_BIT \<longleftrightarrow> pixel < 2 \<or> unat (brightness m) < pixel)
          \<and> (bit plain BITSTREAM_CTRL_LAT_BIT \<longleftrightarrow> int pixel = int (unat (width m)) - 2)
          \<and> written = (if invert m then NOT plain else plain)"
proof -
  let ?m0 = "m\<lparr>invert := False\<rparr>"
  let ?off = "px_offset m l row pixel + BITSTREAM_CTRL_BYTE"
  have off0: "px_offset ?m0 l row pixel = px_offset m l row pixel"
    by (simp add: px_offset_def)
  have w: "control_pass m sd ! ?off = control_byte m row pixel"
    using assms by (intro control_pass_nth) simp_all
  have "control_pass ?m0 sd ! (px_offset ?m0 l row pixel + BITSTREAM_CTRL_BYTE)
          = control_byte ?m0 row pixel"
    using assms by (intro control_pass_nth) simp_all
  then have p: "control_pass ?m0 sd ! ?off = control_byte ?m0 row pixel"
    by (simp add: off0)
  have r: "uint (take_bit a (drop_bit BITSTREAM_CTRL_ROW_START_BIT (control_byte ?m0 row pixel)))
             = (int row - 1) mod int (unat (rows m))"
    using assms(4,5)
    by (simp only: control_byte_plain BITSTREAM_CTRL_ROW_START_BIT_def ctrl_row_field
        uint_display_row) simp
  have oe: "bit (control_byte ?m0 row pixel) BITSTREAM_CTRL_OE_BIT
              \<longleftrightarrow> pixel < 2 \<or> unat (brightness m) < pixel"
    by (simp only: control_byte_plain BITSTREAM_CTRL_OE_BIT_def ctrl_bit0)
  have lat: "bit (control_byte ?m0 row pixel) BITSTREAM_CTRL_LAT_BIT
              \<longleftrightarrow> int pixel = int (unat (width m)) - 2"
    by (simp only: control_byte_plain BITSTREAM_CTRL_LAT_BIT_def One_nat_def ctrl_bit1) simp
  show ?thesis
    unfolding Let_def w p using r oe lat control_byte_invert [of m row pixel] by simp
qed


theorem control_byte_fields_witness:
  "(0::nat) < unat (color_depth small_matrix) \<and> (0::nat) < unat (rows small_matrix)
   \<and> (2::nat) < unat (width small_matrix) \<and> unat (rows small_matrix) = 2 ^ 1 \<and> (1::nat) \<le> 6
   \<and> length (replicate 16 (0::u8)) = unat (color_depth small_matrix) * (2 * unat (width small_matrix) * unat (rows small_matrix))
   \<and> (let off = px_offset small_matrix 0 0 2 + BITSTREAM_CTRL_BYTE;
             written = control_pass small_matrix (replicate 16 0) ! off;
             plain = control_pass (small_matrix\<lparr>invert := False\<rparr>) (replicate 16 0) ! off
         in uint (take_bit 1 (drop_bit BITSTREAM_CTRL_ROW_START_BIT plain)) = 1
          \<and> \<not> bit plain BITSTREAM_CTRL_OE_BIT
          \<and> bit plain BITSTREAM_CTRL_LAT_BIT
          \<and> written = NOT plain)"
proof -
  have h: "(0::nat) < unat (color_depth small_matrix)" "(0::nat) < unat (rows small_matrix)"
    "(2::nat) < unat (width small_matrix)" "unat (rows small_matrix) = 2 ^ 1" "(1::nat) \<le> 6"
    "length (replicate 16 (0::u8)) = unat (color_depth small_matrix) * (2 * unat (width small_matrix) * unat (rows small_matrix))"
    by (simp_all add: small_matrix_def zero_matrix_def)
  from control_byte_fields [OF h] h show ?thesis
    by (simp add: Let_def small_matrix_def zero_matrix_def)
qed

section \<open>set_brightness\<close>

lemma control_pass_buffer_upd [simp]: "control_pass (m\<lparr>buffer := bs\<rparr>) sd = control_pass m sd"
  by (simp add: control_pass_def control_byte_def px_offset_def)

lemma uint_brightness_store:
  assumes "0 \<le> v" "v \<le> uint (w::u16) - 2"
  shows "uint (of_int (v + 1) :: u16) = v + 1"
proof -
  have "uint w < 2 ^ 16" using uint_lt2p [of w] by simp
  with assms have "0 \<le> v + 1" "v + 1 < 2 ^ 16" by simp_all
  then have "(v + 1) mod 2 ^ LENGTH(16) = v + 1" by simp
  then show ?thesis by (simp only: uint_word_of_int_eq take_bit_eq_mod)
qed

lemma control_fields_cong:
  assumes "width a = width b" "rows a = rows b" "color_depth a = color_depth b"
    "brightness a = brightness b" "invert a = invert b"
  shows "control_pass a = control_pass b" "control_byte a = control_byte b"
    "px_offset a = px_offset b"
  using assms by (simp_all add: control_pass_def control_byte_def px_offset_def fun_eq_iff)

lemma px_offset_even:
  "px_offset m l r p = 2 * (unat (width m) * unat (rows m) * l + unat (width m) * r + p)"
  by (simp add: px_offset_def Let_def algebra_simps)

lemma set_brightness_result:
  assumes "initialized m" and "length (buffer m) = 2"
    and "0 \<le> v" and "v \<le> uint (width m) - 2"
  shows "\<exists>m'. ledmatrix_set_brightness m (SmallInt v) = Inr m'
           \<and> brightness m' = of_int (v + 1) \<and> width m' = width m \<and> rows m' = rows m
           \<and> color_depth m' = color_depth m \<and> invert m' = invert m
           \<and> double_buffer m' = double_buffer m \<and> initialized m' \<and> length (buffer m') = 2
           \<and> stream_data (buffer m' ! 0) = control_pass m' (stream_data (buffer m ! 0))
           \<and> stream_data (buffer m' ! 1)
               = (if double_buffer m then control_pass m' (stream_data (buffer m ! 1))
                  else stream_data (buffer m ! 1))"
  using assms
  by (simp add: ledmatrix_set_brightness_def create_control_pattern_def Let_def)

section \<open>show and the double-buffer hand-off\<close>

lemma u8_lt2:
  assumes "unat (b::u8) < 2"
  shows "b = 0 \<or> b = 1"
proof -
  have "unat b = 0 \<or> unat b = 1" using assms by arith
  then show ?thesis by (simp add: word_unat_eq_iff)
qed

lemma size_t_pred: "0 < n \<Longrightarrow> n < 2 ^ 32 \<Longrightarrow> size_t (int n - 1) = n - 1"
  by (simp add: size_t_def nat_diff_distrib')

lemma set_mono_color_fields [simp]:
  "buffer (set_mono_color m c) = buffer m"
  "backbuffer (set_mono_color m c) = backbuffer m"
  "double_buffer (set_mono_color m c) = double_buffer m"
  "dma_desc_count (set_mono_color m c) = dma_desc_count m"
  "initialized (set_mono_color m c) = initialized m"
  by (simp_all add: set_mono_color_def)

lemma show_step:
  assumes ok: "rings_ok m" and ini: "initialized m" and db: "double_buffer m"
    and sh: "ledmatrix_show m fb color mode = Some (Inr m')"
  shows "rings_ok m' \<and> initialized m' \<and> double_buffer m'
       \<and> backbuffer m' = backbuffer m XOR 1
       \<and> stqe_next (dma_desc (buffer m' ! 0) ! (dma_desc_count m' - 1)) = DescPtr (unat (backbuffer m)) 0
       \<and> stqe_next (dma_desc (buffer m' ! 1) ! (dma_desc_count m' - 1)) = DescPtr (unat (backbuffer m)) 0
       \<and> stream_data (buffer m' ! unat (backbuffer m XOR 1))
            = stream_data (buffer m ! unat (backbuffer m XOR 1))
       \<and> show_update (set_mono_color m color) (stream_data (buffer m ! unat (backbuffer m))) fb mode
            = Some (Inr (stream_data (buffer m' ! unat (backbuffer m))))"
proof -
  let ?mc = "set_mono_color m color"
  let ?bb = "unat (backbuffer m)"
  from ok have len: "length (buffer m) = 2" and bb: "?bb < 2"
    and n0: "0 < dma_desc_count m" and n32: "dma_desc_count m < 2 ^ 32"
    and l0: "length (dma_desc (buffer m ! 0)) = dma_desc_count m"
    and l1: "length (dma_desc (buffer m ! 1)) = dma_desc_count m"
    using db by (simp_all add: rings_ok_def)
  from sh ini obtain sd where
    su: "show_update ?mc (stream_data (buffer m ! ?bb)) fb mode = Some (Inr sd)"
    by (auto simp: ledmatrix_show_def Let_def split: option.splits sum.splits)
  have last: "size_t (int (dma_desc_count m) - 1) = dma_desc_count m - 1"
    using n0 n32 by (rule size_t_pred)
  from bb have "backbuffer m = 0 \<or> backbuffer m = 1" by (rule u8_lt2)
  then show ?thesis
  proof
    assume b0: "backbuffer m = 0"
    from sh ini db su b0 len n0 n32 l0 l1 last show ?thesis
      by (cases "buffer m"; cases "tl (buffer m)")
         (auto simp: ledmatrix_show_def Let_def set_next_def rings_ok_def)
  next
    assume b1: "backbuffer m = 1"
    from sh ini db su b1 len n0 n32 l0 l1 last show ?thesis
      by (cases "buffer m"; cases "tl (buffer m)")
         (auto simp: ledmatrix_show_def Let_def set_next_def rings_ok_def)
  qed
qed


lemma db_matrix_ok: "rings_ok db_matrix" "initialized db_matrix" "double_buffer db_matrix"
  "backbuffer db_matrix = 1"
  by (simp_all add: rings_ok_def db_matrix_def)

lemma show_db_A: "ledmatrix_show db_matrix fbA (- 1) COLOR_RGB565 = Some (Inr db_matrix_A)"
  by code_simp

lemma show_db_AB: "ledmatrix_show db_matrix_A fbB (- 1) COLOR_RGB565 = Some (Inr db_matrix_AB)"
  by code_simp

lemma show_all_inv:
  "rings_ok m \<Longrightarrow> initialized m \<Longrightarrow> double_buffer m \<Longrightarrow> show_all m cs = Some (Inr m') \<Longrightarrow>
   rings_ok m' \<and> initialized m' \<and> double_buffer m'"
proof (induction cs arbitrary: m)
  case Nil
  then show ?case by simp
next
  case (Cons c cs)
  obtain fb color mode where c: "c = (fb, color, mode)" by (cases c)
  from Cons.prems(4) c obtain m1 where
    s1: "ledmatrix_show m fb color mode = Some (Inr m1)" and s2: "show_all m1 cs = Some (Inr m')"
    by (auto split: option.splits sum.splits)
  from show_step [OF Cons.prems(1-3) s1] Cons.IH [OF _ _ _ s2] show ?case by simp
qed

text \<open>
  C4. In double-buffer mode, after any history of successful \<open>show\<close> calls (from either
  initial backbuffer), a further successful \<open>show\<close> leaves the \<open>next\<close> link of the last
  descriptor of both rings pointing at the first descriptor of the buffer that this call
  wrote, which is the new front buffer and holds the encoding of its framebuffer, and it
  toggles the backbuffer index.
\<close>

theorem show_handoff:
  assumes "rings_ok m" and "initialized m" and "double_buffer m"
    and "show_all m cs = Some (Inr m1)"
    and "ledmatrix_show m1 fb color mode = Some (Inr m')"
  shows "stqe_next (dma_desc (buffer m' ! 0) ! (dma_desc_count m' - 1)) = DescPtr (front_buffer m') 0
       \<and> stqe_next (dma_desc (buffer m' ! 1) ! (dma_desc_count m' - 1)) = DescPtr (front_buffer m') 0
       \<and> front_buffer m' = unat (backbuffer m1)
       \<and> backbuffer m' = backbuffer m1 XOR 1
       \<and> show_update (set_mono_color m1 color) (stream_data (buffer m1 ! unat (backbuffer m1))) fb mode
            = Some (Inr (stream_data (buffer m' ! front_buffer m')))"
proof -
  from show_all_inv [OF assms(1-4)]
  have ok: "rings_ok m1" and ini: "initialized m1" and db: "double_buffer m1" by simp_all
  from ok have "backbuffer m1 = 0 \<or> backbuffer m1 = 1"
    by (intro u8_lt2) (simp add: rings_ok_def)
  then have "unat ((backbuffer m1 XOR 1) XOR 1) = unat (backbuffer m1)" by auto
  with show_step [OF ok ini db assms(5)] show ?thesis
    by (simp add: front_buffer_def)
qed

theorem show_handoff_witness:
  "rings_ok db_matrix \<and> initialized db_matrix \<and> double_buffer db_matrix
   \<and> show_all db_matrix [(fbA, - 1, COLOR_RGB565)] = Some (Inr db_matrix_A)
   \<and> ledmatrix_show db_matrix_A fbB (- 1) COLOR_RGB565 = Some (Inr db_matrix_AB)
   \<and> stqe_next (dma_desc (buffer db_matrix_AB ! 0) ! (dma_desc_count db_matrix_AB - 1)) = DescPtr 0 0
   \<and> stqe_next (dma_desc (buffer db_matrix_AB ! 1) ! (dma_desc_count db_matrix_AB - 1)) = DescPtr 0 0
   \<and> front_buffer db_matrix_AB = 0 \<and> backbuffer db_matrix_AB = 1"
proof -
  have a: "show_all db_matrix [(fbA, - 1, COLOR_RGB565)] = Some (Inr db_matrix_A)"
    by (simp add: show_db_A)
  have b: "unat (backbuffer db_matrix_A) = 0" "backbuffer db_matrix_A XOR 1 = 1"
    using show_step [OF db_matrix_ok(1-3) show_db_A] by (simp_all add: db_matrix_ok(4))
  from show_handoff [OF db_matrix_ok(1-3) a show_db_AB] a b db_matrix_ok show_db_AB
  show ?thesis by simp
qed

text \<open>
  C5 (as amended). With double buffering and the backbuffer index 1, as after init, successful
  calls \<open>show(fb1)\<close> and then \<open>show(fb2)\<close> leave both rings' last \<open>next\<close> link at the first
  descriptor of buffer 0, which holds the encoding of \<open>fb2\<close> (the new front), and the
  backbuffer index at 1, the buffer that holds the encoding of \<open>fb1\<close>.
\<close>

theorem show_twice:
  assumes "rings_ok m" and "initialized m" and "double_buffer m" and "backbuffer m = 1"
    and "ledmatrix_show m fb1 color1 mode1 = Some (Inr m1)"
    and "ledmatrix_show m1 fb2 color2 mode2 = Some (Inr m2)"
  shows "stqe_next (dma_desc (buffer m2 ! 0) ! (dma_desc_count m2 - 1)) = DescPtr 0 0
       \<and> stqe_next (dma_desc (buffer m2 ! 1) ! (dma_desc_count m2 - 1)) = DescPtr 0 0
       \<and> backbuffer m2 = 1
       \<and> show_update (set_mono_color m1 color2) (stream_data (buffer m ! 0)) fb2 mode2
            = Some (Inr (stream_data (buffer m2 ! 0)))
       \<and> show_update (set_mono_color m color1) (stream_data (buffer m ! 1)) fb1 mode1
            = Some (Inr (stream_data (buffer m2 ! 1)))"
proof -
  note s1 = show_step [OF assms(1-3) assms(5)]
  from s1 have ok1: "rings_ok m1" and ini1: "initialized m1" and db1: "double_buffer m1" by simp_all
  from s1 assms(4) have bb1: "backbuffer m1 = 0" by simp
  note s2 = show_step [OF ok1 ini1 db1 assms(6)]
  from s1 s2 assms(4) bb1 show ?thesis by simp
qed

theorem show_twice_witness:
  "rings_ok db_matrix \<and> initialized db_matrix \<and> double_buffer db_matrix \<and> backbuffer db_matrix = 1
   \<and> ledmatrix_show db_matrix fbA (- 1) COLOR_RGB565 = Some (Inr db_matrix_A)
   \<and> ledmatrix_show db_matrix_A fbB (- 1) COLOR_RGB565 = Some (Inr db_matrix_AB)
   \<and> stqe_next (dma_desc (buffer db_matrix_AB ! 0) ! (dma_desc_count db_matrix_AB - 1)) = DescPtr 0 0
   \<and> stqe_next (dma_desc (buffer db_matrix_AB ! 1) ! (dma_desc_count db_matrix_AB - 1)) = DescPtr 0 0
   \<and> backbuffer db_matrix_AB = 1
   \<and> show_update (set_mono_color db_matrix_A (- 1)) (stream_data (buffer db_matrix ! 0)) fbB COLOR_RGB565
        = Some (Inr (stream_data (buffer db_matrix_AB ! 0)))
   \<and> show_update (set_mono_color db_matrix (- 1)) (stream_data (buffer db_matrix ! 1)) fbA COLOR_RGB565
        = Some (Inr (stream_data (buffer db_matrix_AB ! 1)))"
  using show_twice [OF db_matrix_ok show_db_A show_db_AB] db_matrix_ok show_db_A show_db_AB
  by simp

text \<open>
  C5 as stated fails: after \<open>show(fbA)\<close> and \<open>show(fbB)\<close> buffer 1 holds the encoding of
  \<open>fbA\<close> and buffer 0 that of \<open>fbB\<close>, but the tail links do not point into buffer 1 and the
  backbuffer index is not 0.
\<close>

theorem show_twice_counterexample:
  "show_all db_matrix [(fbA, - 1, COLOR_RGB565), (fbB, - 1, COLOR_RGB565)] = Some (Inr db_matrix_AB)
   \<and> stream_data (buffer db_matrix_AB ! 1) = [0, 0xFF, 0, 0xFD]
   \<and> update_framebuffer db_matrix (stream_data (buffer db_matrix ! 1)) fbA get_color_bits_rgb
        = Some [0, 0xFF, 0, 0xFD]
   \<and> stream_data (buffer db_matrix_AB ! 0) = [7, 0xFF, 7, 0xFD]
   \<and> update_framebuffer db_matrix (stream_data (buffer db_matrix ! 0)) fbB get_color_bits_rgb
        = Some [7, 0xFF, 7, 0xFD]
   \<and> stqe_next (dma_desc (buffer db_matrix_AB ! 0) ! (dma_desc_count db_matrix_AB - 1)) \<noteq> DescPtr 1 0
   \<and> stqe_next (dma_desc (buffer db_matrix_AB ! 1) ! (dma_desc_count db_matrix_AB - 1)) \<noteq> DescPtr 1 0
   \<and> unat (backbuffer db_matrix_AB) \<noteq> 0"
  by code_simp

text \<open>
  C10. \<open>show\<close> with a mode other than 0, 1 and 2, while initialized, raises nothing and
  leaves the stream bytes of every buffer as they were; in double-buffer mode it still
  points the last \<open>next\<close> link of both rings at the first descriptor of the backbuffer and
  toggles the backbuffer index, so that the untouched backbuffer becomes the front.
\<close>

theorem show_unknown_mode:
  assumes "initialized m" and "rings_ok m"
    and "mode \<noteq> COLOR_RGB565" and "mode \<noteq> COLOR_GS8" and "mode \<noteq> COLOR_MONO"
  shows "\<exists>m'. ledmatrix_show m fb color mode = Some (Inr m')
           \<and> map stream_data (buffer m') = map stream_data (buffer m)
           \<and> (if double_buffer m
               then stqe_next (dma_desc (buffer m' ! 0) ! (dma_desc_count m' - 1))
                      = DescPtr (unat (backbuffer m)) 0
                  \<and> stqe_next (dma_desc (buffer m' ! 1) ! (dma_desc_count m' - 1))
                      = DescPtr (unat (backbuffer m)) 0
                  \<and> backbuffer m' = backbuffer m XOR 1
                  \<and> front_buffer m' = unat (backbuffer m)
               else m' = set_mono_color m color)"
proof -
  let ?mc = "set_mono_color m color"
  have su: "show_update ?mc sd fb mode = Some (Inr sd)" for sd
    using assms(3-5) by (simp add: show_update_def)
  show ?thesis
  proof (cases "double_buffer m")
    case False
    then show ?thesis
      using assms(1) su by (simp add: ledmatrix_show_def Let_def)
  next
    case True
    from su assms(1) obtain m' where sh: "ledmatrix_show m fb color mode = Some (Inr m')"
      by (simp add: ledmatrix_show_def Let_def)
    note st = show_step [OF assms(2) assms(1) True sh]
    from assms(2) have bb: "backbuffer m = 0 \<or> backbuffer m = 1"
      by (intro u8_lt2) (simp add: rings_ok_def)
    from st have len: "length (buffer m') = 2" "length (buffer m) = 2"
      using assms(2) by (simp_all add: rings_ok_def)
    from st su have same: "stream_data (buffer m' ! unat (backbuffer m)) = stream_data (buffer m ! unat (backbuffer m))"
      by simp
    from st have other: "stream_data (buffer m' ! unat (backbuffer m XOR 1))
                         = stream_data (buffer m ! unat (backbuffer m XOR 1))" by simp
    have "map stream_data (buffer m') = map stream_data (buffer m)"
    proof (rule nth_equalityI)
      show "length (map stream_data (buffer m')) = length (map stream_data (buffer m))"
        using len by simp
    next
      fix i assume "i < length (map stream_data (buffer m'))"
      with len have "i = 0 \<or> i = 1" by auto
      with bb same other len show "map stream_data (buffer m') ! i = map stream_data (buffer m) ! i"
        by auto
    qed
    moreover from bb have "unat ((backbuffer m XOR 1) XOR 1) = unat (backbuffer m)" by auto
    ultimately show ?thesis using st sh True by (simp add: front_buffer_def)
  qed
qed

theorem show_unknown_mode_witness:
  "initialized db_matrix \<and> rings_ok db_matrix \<and> (3::int) \<noteq> COLOR_RGB565 \<and> 3 \<noteq> COLOR_GS8
   \<and> 3 \<noteq> COLOR_MONO
   \<and> (\<exists>m'. ledmatrix_show db_matrix fbB (- 1) 3 = Some (Inr m')
         \<and> map stream_data (buffer m') = map stream_data (buffer db_matrix)
         \<and> stqe_next (dma_desc (buffer m' ! 0) ! (dma_desc_count m' - 1)) = DescPtr 1 0
         \<and> stqe_next (dma_desc (buffer m' ! 1) ! (dma_desc_count m' - 1)) = DescPtr 1 0
         \<and> backbuffer m' = 0 \<and> front_buffer m' = 1)"
proof -
  have h: "(3::int) \<noteq> COLOR_RGB565" "(3::int) \<noteq> COLOR_GS8" "(3::int) \<noteq> COLOR_MONO"
    by (simp_all add: COLOR_RGB565_def COLOR_GS8_def COLOR_MONO_def)
  from show_unknown_mode [OF db_matrix_ok(2) db_matrix_ok(1) h, of fbB "- 1"] h db_matrix_ok
  show ?thesis by simp
qed

section \<open>The MONO_HLSB decoder\<close>

text \<open>
  C6 fails for every \<open>x\<close> with \<open>x & 7 \<ge> 2\<close>: the decoder shifts \<open>0x80\<close> right by
  \<open>1 - (x & 7)\<close>, a negative count there, which has no defined result. Columns 0 and 1
  of a byte are decoded with the pair swapped: \<open>0b10000000\<close> lights column 1 and not
  column 0.
\<close>

theorem mono_hlsb_negative_shift:
  "get_color_bits_mono_hlsb m 2 0 bitn [0x10] = None
   \<and> get_color_bits_mono_hlsb m 0 0 bitn [0x80] = Some 0
   \<and> get_color_bits_mono_hlsb m 1 0 bitn [0x80] = get_mono_color_bits m bitn"
  by (simp add: get_color_bits_mono_hlsb_def rd_def c_shr_def drop_bit_eq_div)

section \<open>The argument checks of init\<close>

lemma init_db: "ledmatrix_init env_ok db_args = Some (Inr db_matrix)"
  by code_simp

lemma initialize_buffer_fields:
  assumes "initialize_buffer env m b = Some (Inr m')"
  shows "\<exists>c bs. m' = m\<lparr>dma_desc_count := c, buffer := bs\<rparr>"
  using assms
  by (auto simp: initialize_buffer_def Let_def split: if_splits option.splits)

lemma create_control_pattern_fields:
  "\<exists>bs. create_control_pattern m b = m\<lparr>buffer := bs\<rparr>"
  by (auto simp: create_control_pattern_def)

lemma start_dma_Inr: "start_dma env m = Some (Inr m') \<Longrightarrow> m' = m"
  by (auto simp: start_dma_def Let_def split: if_splits)

lemma init_config_brightness:
  assumes "init_config n a = Inr (m, cfg)"
  shows "width m = word_of_int (arg_width a)
       \<and> brightness m = (if 0 < arg_brightness a then word_of_int (arg_brightness a) + 1
                         else width m - 1)"
  using assms
  by (auto simp: init_config_def Let_def split: if_splits sum.splits prod.splits)

lemma init_fields:
  assumes "ledmatrix_init env a = Some (Inr m)"
  shows "\<exists>m0 cfg. init_config (gpios_bus_size env) a = Inr (m0, cfg)
           \<and> width m = width m0 \<and> brightness m = brightness m0 \<and> rows m = rows m0
           \<and> color_depth m = color_depth m0"
proof -
  from assms obtain m0 cfg where c: "init_config (gpios_bus_size env) a = Inr (m0, cfg)"
    by (auto simp: ledmatrix_init_def split: sum.splits)
  from assms c obtain m1 where i1: "initialize_buffer env m0 0 = Some (Inr m1)"
    by (auto simp: ledmatrix_init_def split: sum.splits option.splits)
  from initialize_buffer_fields [OF i1] obtain c1 bs1 where
    m1: "m1 = m0\<lparr>dma_desc_count := c1, buffer := bs1\<rparr>" by blast
  show ?thesis
  proof (cases "double_buffer m1")
    case False
    with assms c i1 have "m = (create_control_pattern m1 0)\<lparr>initialized := True\<rparr>"
      by (auto simp: ledmatrix_init_def split: if_splits dest: start_dma_Inr)
    with m1 c show ?thesis by (simp add: create_control_pattern_def)
  next
    case True
    with assms c i1 obtain m2 where
      i2: "initialize_buffer env (create_control_pattern m1 0) 1 = Some (Inr m2)"
      and m: "m = (create_control_pattern m2 1)\<lparr>backbuffer := 1, initialized := True\<rparr>"
      by (auto simp: ledmatrix_init_def split: if_splits option.splits sum.splits
          dest: start_dma_Inr)
    from initialize_buffer_fields [OF i2] obtain c2 bs2 where
      "m2 = (create_control_pattern m1 0)\<lparr>dma_desc_count := c2, buffer := bs2\<rparr>" by blast
    with m m1 c show ?thesis by (simp add: create_control_pattern_def)
  qed
qed

text \<open>
  C7 fails at \<open>v = 0\<close>: \<open>init\<close> takes the branch for a given brightness only when the
  argument is positive, so a brightness argument of 0 is stored as \<open>width - 1\<close>, the value
  for an omitted argument, and not as \<open>0 + 1\<close>.
\<close>

theorem init_brightness_zero:
  assumes "ledmatrix_init env a = Some (Inr m)" and "arg_brightness a = 0"
  shows "brightness m = width m - 1"
proof -
  from init_fields [OF assms(1)] obtain m0 cfg where
    c: "init_config (gpios_bus_size env) a = Inr (m0, cfg)"
    and f: "width m = width m0" "brightness m = brightness m0" by blast
  from init_config_brightness [OF c] assms(2) f show ?thesis by simp
qed

lemma init_dim: "ledmatrix_init env_ok dim_args = Some (Inr dim_matrix)"
  by code_simp

theorem init_brightness_zero_witness:
  "ledmatrix_init env_ok dim_args = Some (Inr dim_matrix) \<and> arg_brightness dim_args = 0
   \<and> width dim_matrix = 4 \<and> brightness dim_matrix = 3"
proof -
  have b: "arg_brightness dim_args = 0" by (simp add: dim_args_def)
  have w: "width dim_matrix = 4"
    using init_fields [OF init_dim] init_config_brightness [of "gpios_bus_size env_ok" dim_args]
    by (auto simp: dim_args_def db_args_def)
  from init_brightness_zero [OF init_dim b] init_dim b w show ?thesis by simp
qed


lemma read_colors_Inl: "read_colors items i bus = Inl e \<Longrightarrow> invalid_argument e"
  by (induction items i bus rule: read_colors.induct) (auto split: if_splits mp_obj.splits)

lemma read_colors_Inr:
  "read_colors items i bus = Inr (j, bus') \<Longrightarrow> i \<le> 6 \<Longrightarrow> j = min 6 (i + length items)"
  by (induction items i bus rule: read_colors.induct) (auto split: if_splits mp_obj.splits)

lemma read_rows_Inl: "read_rows items i bus = Inl e \<Longrightarrow> invalid_argument e"
  by (induction items i bus rule: read_rows.induct) (auto split: if_splits mp_obj.splits)

lemma read_rows_Inr:
  "read_rows items i bus = Inr r \<Longrightarrow> i \<le> 6 \<Longrightarrow> i + length items \<le> 6 \<and> fst r = i + length items"
  by (induction items i bus rule: read_rows.induct)
     (auto simp: BITSTREAM_ROWS_MAX_def split: if_splits mp_obj.splits)

lemma u16_odd: "(word_of_int k :: u16) AND 1 \<noteq> 0 \<longleftrightarrow> odd k"
  by (simp add: and_one_eq even_iff_mod_2_eq_zero [symmetric] even_of_int_iff)

lemma uint_u16: "uint (word_of_int k :: u16) = k mod 65536"
  by (simp add: uint_word_of_int_eq take_bit_eq_mod)

lemma u8_zero: "(word_of_int k :: u8) = 0 \<longleftrightarrow> k mod 256 = 0"
  by (simp add: word_of_int_eq_0_iff take_bit_eq_mod dvd_eq_mod_eq_0 flip: take_bit_eq_0_iff)


lemma init_config_Inl: "init_config n a = Inl e \<Longrightarrow> invalid_argument e"
  by (auto simp: init_config_def Let_def split: if_splits sum.splits prod.splits
      dest: read_colors_Inl read_rows_Inl)

lemma init_config_Inr:
  assumes "init_config n a = Inr r"
  shows "even (arg_width a)
       \<and> \<not> (0 < arg_brightness a \<and> arg_width a mod 65536 - 1 \<le> arg_brightness a mod 65536)
       \<and> arg_color_depth a mod 256 \<noteq> 0
       \<and> length (arg_io_rows a) \<le> 6
       \<and> (if arg_single_channel a then length (arg_io_colors a) = 3
           else 6 \<le> length (arg_io_colors a))"
proof -
  let ?bus = "(replicate n (- 1))[BITSTREAM_CTRL_OE_IO := arg_io_oe a,
                BITSTREAM_CTRL_LAT_IO := arg_io_lat a]"
  from assms have w: "even (arg_width a)"
    by (auto simp: init_config_def Let_def u16_odd split: if_splits)
  from assms have b: "\<not> (0 < arg_brightness a \<and> arg_width a mod 65536 - 1 \<le> arg_brightness a mod 65536)"
    by (auto simp: init_config_def Let_def uint_u16 split: if_splits)
  from assms have d: "arg_color_depth a mod 256 \<noteq> 0"
    by (auto simp: init_config_def Let_def u8_zero split: if_splits)
  from assms obtain j bus' where
    rc: "read_colors (arg_io_colors a) 0 ?bus = Inr (j, bus')"
    and j: "if arg_single_channel a then j = 3 else j = 6"
    and rr: "\<exists>r'. read_rows (arg_io_rows a) 0 bus' = Inr r'"
    by (auto simp: init_config_def Let_def split: if_splits sum.splits prod.splits)
  from read_colors_Inr [OF rc] have "j = min 6 (length (arg_io_colors a))" by simp
  with j have c: "if arg_single_channel a then length (arg_io_colors a) = 3
                  else 6 \<le> length (arg_io_colors a)"
    by (auto split: if_splits)
  from rr read_rows_Inr [of "arg_io_rows a" 0 bus'] have "length (arg_io_rows a) \<le> 6" by auto
  with w b d c show ?thesis by simp
qed

text \<open>
  C9 (as amended). \<open>init\<close> fails with a \<open>ValueError\<close> or a \<open>TypeError\<close> whenever the width
  is odd; or the brightness argument is positive and greater than \<open>width - 2\<close>, for a width
  that is not negative and a brightness argument of at most 65535; or the colour depth is
  0; or there are more than 6 row pins; or the number of colour pins is not 3 in
  single-channel mode, or less than 6 in dual-channel mode.
\<close>

theorem init_rejects:
  assumes "odd (arg_width a)
         \<or> (0 \<le> arg_width a \<and> 0 < arg_brightness a \<and> arg_brightness a \<le> 65535
            \<and> arg_width a - 2 < arg_brightness a)
         \<or> arg_color_depth a = 0
         \<or> 6 < length (arg_io_rows a)
         \<or> (arg_single_channel a \<and> length (arg_io_colors a) \<noteq> 3)
         \<or> (\<not> arg_single_channel a \<and> length (arg_io_colors a) < 6)"
  shows "\<exists>e. ledmatrix_init env a = Some (Inl e) \<and> invalid_argument e"
proof (cases "init_config (gpios_bus_size env) a")
  case (Inl e)
  then show ?thesis
    using init_config_Inl [OF Inl] by (simp add: ledmatrix_init_def)
next
  case (Inr r)
  let ?W = "arg_width a" and ?v = "arg_brightness a"
  from init_config_Inr [OF Inr] have
    w: "even ?W"
    and b: "\<not> (0 < ?v \<and> ?W mod 65536 - 1 \<le> ?v mod 65536)"
    and d: "arg_color_depth a mod 256 \<noteq> 0"
    and r: "length (arg_io_rows a) \<le> 6"
    and c: "if arg_single_channel a then length (arg_io_colors a) = 3
            else 6 \<le> length (arg_io_colors a)"
    by simp_all
  have "\<not> (0 \<le> ?W \<and> 0 < ?v \<and> ?v \<le> 65535 \<and> ?W - 2 < ?v)"
  proof
    assume h: "0 \<le> ?W \<and> 0 < ?v \<and> ?v \<le> 65535 \<and> ?W - 2 < ?v"
    then have "?v mod 65536 = ?v" by simp
    moreover from h have "?W mod 65536 \<le> ?W" by (simp add: zmod_le_nonneg_dividend)
    ultimately have "?W mod 65536 - 1 \<le> ?v mod 65536" using h by linarith
    with h b show False by simp
  qed
  moreover from d have "arg_color_depth a \<noteq> 0" by auto
  ultimately show ?thesis using assms w r c by (auto split: if_splits)
qed

theorem init_rejects_witness:
  "(odd (arg_width (db_args\<lparr>arg_width := 3\<rparr>))
    \<and> (\<exists>e. ledmatrix_init env_ok (db_args\<lparr>arg_width := 3\<rparr>) = Some (Inl e) \<and> invalid_argument e))
   \<and> (0 \<le> arg_width (db_args\<lparr>arg_width := 4, arg_brightness := 3\<rparr>)
    \<and> 0 < arg_brightness (db_args\<lparr>arg_width := 4, arg_brightness := 3\<rparr>)
    \<and> arg_brightness (db_args\<lparr>arg_width := 4, arg_brightness := 3\<rparr>) \<le> 65535
    \<and> arg_width (db_args\<lparr>arg_width := 4, arg_brightness := 3\<rparr>) - 2
        < arg_brightness (db_args\<lparr>arg_width := 4, arg_brightness := 3\<rparr>)
    \<and> (\<exists>e. ledmatrix_init env_ok (db_args\<lparr>arg_width := 4, arg_brightness := 3\<rparr>) = Some (Inl e)
          \<and> invalid_argument e))
   \<and> (arg_color_depth (db_args\<lparr>arg_color_depth := 0\<rparr>) = 0
    \<and> (\<exists>e. ledmatrix_init env_ok (db_args\<lparr>arg_color_depth := 0\<rparr>) = Some (Inl e) \<and> invalid_argument e))
   \<and> (6 < length (arg_io_rows (db_args\<lparr>arg_io_rows := replicate 7 (SmallInt 1)\<rparr>))
    \<and> (\<exists>e. ledmatrix_init env_ok (db_args\<lparr>arg_io_rows := replicate 7 (SmallInt 1)\<rparr>) = Some (Inl e)
          \<and> invalid_argument e))
   \<and> (length (arg_io_colors (db_args\<lparr>arg_io_colors := []\<rparr>)) \<noteq> 3
    \<and> (\<exists>e. ledmatrix_init env_ok (db_args\<lparr>arg_io_colors := []\<rparr>) = Some (Inl e) \<and> invalid_argument e))
   \<and> (length (arg_io_colors (db_args\<lparr>arg_single_channel := False\<rparr>)) < 6
    \<and> (\<exists>e. ledmatrix_init env_ok (db_args\<lparr>arg_single_channel := False\<rparr>) = Some (Inl e)
          \<and> invalid_argument e))"
proof -
  have "\<exists>e. ledmatrix_init env_ok (db_args\<lparr>arg_width := 3\<rparr>) = Some (Inl e) \<and> invalid_argument e"
    by (rule init_rejects) (simp add: db_args_def)
  moreover
  have "\<exists>e. ledmatrix_init env_ok (db_args\<lparr>arg_width := 4, arg_brightness := 3\<rparr>) = Some (Inl e)
          \<and> invalid_argument e"
    by (rule init_rejects) (simp add: db_args_def)
  moreover
  have "\<exists>e. ledmatrix_init env_ok (db_args\<lparr>arg_color_depth := 0\<rparr>) = Some (Inl e) \<and> invalid_argument e"
    by (rule init_rejects) (simp add: db_args_def)
  moreover
  have "\<exists>e. ledmatrix_init env_ok (db_args\<lparr>arg_io_rows := replicate 7 (SmallInt 1)\<rparr>) = Some (Inl e)
          \<and> invalid_argument e"
    by (rule init_rejects) (simp add: db_args_def)
  moreover
  have "\<exists>e. ledmatrix_init env_ok (db_args\<lparr>arg_io_colors := []\<rparr>) = Some (Inl e) \<and> invalid_argument e"
    by (rule init_rejects) (simp add: db_args_def)
  moreover
  have "\<exists>e. ledmatrix_init env_ok (db_args\<lparr>arg_single_channel := False\<rparr>) = Some (Inl e)
          \<and> invalid_argument e"
    by (rule init_rejects) (simp add: db_args_def)
  ultimately show ?thesis by (simp add: db_args_def)
qed

text \<open>
  C9 as stated fails: with collaborators that accept everything, \<open>init\<close> returns normally
  without any row pin and with a negative brightness, the default; with the same pin
  index for OE and all colours; and with seven colour pins in dual-channel mode.
\<close>

theorem init_accepts_counterexample:
  "length (arg_io_rows db_args) = 0 \<and> arg_brightness db_args < 0
    \<and> ledmatrix_init env_ok db_args = Some (Inr db_matrix)
   \<and> \<not> distinct (SmallInt (arg_io_oe db_args) # arg_io_colors (db_args\<lparr>arg_io_colors := [SmallInt 12, SmallInt 12, SmallInt 12]\<rparr>))
    \<and> ledmatrix_init env_ok (db_args\<lparr>arg_io_colors := [SmallInt 12, SmallInt 12, SmallInt 12]\<rparr>)
        = Some (Inr db_matrix)
   \<and> \<not> arg_single_channel (db_args\<lparr>arg_single_channel := False\<rparr>)
    \<and> length (replicate 7 (SmallInt 3)) \<noteq> 6
    \<and> returns (ledmatrix_init env_ok
         (db_args\<lparr>arg_single_channel := False, arg_io_colors := replicate 7 (SmallInt 3)\<rparr>))"
  by code_simp

text \<open>
  For a brightness argument from 1 to \<open>width - 2\<close>, \<open>init\<close> does store the argument plus one:
  only the argument 0 is lost.
\<close>

lemma init_brightness_positive:
  assumes "ledmatrix_init env a = Some (Inr m)"
    and "0 < arg_brightness a" and "arg_brightness a < 65536"
  shows "uint (brightness m) = arg_brightness a + 1 \<and> arg_brightness a + 1 < uint (width m)"
proof -
  let ?v = "arg_brightness a"
  from init_fields [OF assms(1)] obtain m0 cfg where
    c: "init_config (gpios_bus_size env) a = Inr (m0, cfg)"
    and f: "width m = width m0" "brightness m = brightness m0" by blast
  from init_config_brightness [OF c] assms(2) f
  have b: "brightness m = word_of_int ?v + 1" and w: "width m = word_of_int (arg_width a)" by simp_all
  have uv: "uint (word_of_int ?v :: u16) = ?v"
    using assms(2,3) by (simp add: uint_u16)
  from init_config_Inr [OF c] assms(2) have "\<not> arg_width a mod 65536 - 1 \<le> ?v mod 65536" by simp
  with assms(2,3) have lt: "?v + 1 < arg_width a mod 65536" by simp
  have "arg_width a mod 65536 < 65536" by simp
  with lt have "?v + 1 < 65536" by linarith
  then have "(?v + 1) mod 2 ^ LENGTH(16) = ?v + 1" using assms(2) by simp
  then have "uint (word_of_int (?v + 1) :: u16) = ?v + 1"
    by (simp only: uint_word_of_int_eq take_bit_eq_mod)
  moreover have "(word_of_int (?v + 1) :: u16) = word_of_int ?v + 1" by simp
  ultimately have "uint (brightness m) = ?v + 1" using b by simp
  with lt w show ?thesis by (simp add: uint_u16)
qed

section \<open>The descriptor ring\<close>

lemma size_t_nat: "n < 2 ^ 32 \<Longrightarrow> size_t (int n) = n"
  by (simp add: size_t_def)

lemma size_t_add: "a + b < 2 ^ 32 \<Longrightarrow> size_t (int a + int b) = a + b"
  using size_t_nat [of "a + b"] by simp

lemma size_t_mult: "a * b < 2 ^ 32 \<Longrightarrow> size_t (int a * int b) = a * b"
  using size_t_nat [of "a * b"] by simp

lemma size_t_pow: "i < 32 \<Longrightarrow> size_t (2 ^ i) = 2 ^ i"
proof -
  assume "i < 32"
  then have "(2::nat) ^ i < 2 ^ 32" by (intro power_strict_increasing) simp_all
  then have "size_t (int (2 ^ i)) = 2 ^ i" by (rule size_t_nat)
  then show ?thesis by simp
qed

lemma fold_opt_snoc:
  "fold_opt f (xs @ [x]) s = (case fold_opt f xs s of None \<Rightarrow> None | Some s' \<Rightarrow> f x s')"
  by (induction xs arbitrary: s) (auto split: option.splits)

lemma start_pos_bound:
  fixes N :: nat
  assumes "0 < N" "k < n"
  shows "(N * k) div n + N div n div 2 < N"
proof -
  let ?X = "(N * k) div n + N div n div 2"
  have n0: "0 < n" using assms(2) by simp
  have a: "n * ((N * k) div n) \<le> N * k" by simp
  have b: "2 * (N div n div 2) \<le> N div n" by simp
  have c: "n * (N div n) \<le> N" by simp
  have "n * (2 * (N div n div 2)) \<le> n * (N div n)" using b by (rule mult_le_mono2)
  from this c have d: "n * (2 * (N div n div 2)) \<le> N" by (rule le_trans)
  have "2 * n * ?X = 2 * (n * ((N * k) div n)) + n * (2 * (N div n div 2))"
    by (simp add: algebra_simps)
  also have "\<dots> \<le> 2 * (N * k) + N"
    by (rule add_mono [OF mult_le_mono2 [OF a] d])
  also have "\<dots> < 2 * n * N"
  proof -
    have "Suc k \<le> n" using assms(2) by simp
    then have "N * Suc k \<le> N * n" by (rule mult_le_mono2)
    then have "2 * (N * k) + 2 * N \<le> 2 * n * N" by (simp add: algebra_simps)
    with assms(1) show ?thesis by simp
  qed
  finally have "2 * n * ?X < 2 * n * N" .
  then show ?thesis by simp
qed

lemma find_free_aligned:
  assumes "length ds = S * per" and "0 < per" and "S * per < 2 ^ 32"
    and "q < S" and "buf (ds ! (((q + d) mod S) * per)) = NULL"
  shows "\<exists>q'<S. find_free ds per (S * per) (q * per) = Some (q' * per)
           \<and> buf (ds ! (q' * per)) = NULL"
  using assms(4,5)
proof (induction d arbitrary: q)
  case 0
  then have "buf (ds ! (q * per)) = NULL" by simp
  moreover have "q * per < length ds" using assms(1,2) 0(1) by simp
  ultimately have "find_free ds per (S * per) (q * per) = Some (q * per)"
    by (subst find_free.simps) simp
  with 0 \<open>buf (ds ! (q * per)) = NULL\<close> show ?case by blast
next
  case (Suc d)
  have inr: "q * per < length ds" using assms(1,2) Suc.prems(1) by simp
  show ?case
  proof (cases "buf (ds ! (q * per)) = NULL")
    case True
    with inr have "find_free ds per (S * per) (q * per) = Some (q * per)"
      by (subst find_free.simps) simp
    with True Suc.prems(1) show ?thesis by blast
  next
    case False
    have le: "q * per + per \<le> S * per"
    proof -
      have "Suc q \<le> S" using Suc.prems(1) by simp
      then have "Suc q * per \<le> S * per" by (rule mult_le_mono1)
      then show ?thesis by (simp add: algebra_simps)
    qed
    with assms(3) have sz: "size_t (int (q * per) + int per) = q * per + per"
      by (intro size_t_add) simp
    have step: "find_free ds per (S * per) (q * per)
                  = find_free ds per (S * per) (if S * per \<le> q * per + per then 0 else q * per + per)"
      by (subst find_free.simps) (simp only: inr False sz if_True not_False_eq_True)
    show ?thesis
    proof (cases "Suc q = S")
      case True
      have "S * per = q * per + per" unfolding True [symmetric] by simp
      with step have nxt: "find_free ds per (S * per) (q * per) = find_free ds per (S * per) (0 * per)"
        by simp
      have "(q + Suc d) mod S = (0 + d) mod S"
        using True by (metis add_Suc_shift add.commute mod_add_self1 add_0)
      with Suc.prems(2) have "buf (ds ! (((0 + d) mod S) * per)) = NULL" by simp
      moreover have "0 < S" using Suc.prems(1) by simp
      ultimately show ?thesis using Suc.IH [of 0] nxt by simp
    next
      case F2: False
      with Suc.prems(1) have lt: "Suc q < S" by simp
      from lt assms(2) have "Suc q * per < S * per" by (rule mult_less_mono1)
      then have "\<not> S * per \<le> q * per + per" by (simp add: algebra_simps)
      with step have nxt: "find_free ds per (S * per) (q * per) = find_free ds per (S * per) (Suc q * per)"
        by (simp add: algebra_simps)
      from Suc.prems(2) have "buf (ds ! (((Suc q + d) mod S) * per)) = NULL" by simp
      with Suc.IH [OF lt] nxt show ?thesis by simp
    qed
  qed
qed

lemma cyclic_reach:
  assumes "q < S" "q0 < (S::nat)"
  shows "(q + (q0 + S - q)) mod S = q0"
  using assms by simp


lemma length_slot_bufs: "length ds = S * per \<Longrightarrow> 0 < per \<Longrightarrow> length (slot_bufs per ds) = S"
  by (simp add: slot_bufs_def)

lemma slot_bufs_nth:
  "length ds = S * per \<Longrightarrow> 0 < per \<Longrightarrow> q < S \<Longrightarrow> slot_bufs per ds ! q = buf (ds ! (q * per))"
  by (simp add: slot_bufs_def)

lemma slot_bufs_update:
  assumes "length ds = S * per" "0 < per" "q < S"
  shows "slot_bufs per (ds[q * per := d]) = (slot_bufs per ds)[q := buf d]"
proof (rule nth_equalityI)
  show "length (slot_bufs per (ds[q * per := d])) = length ((slot_bufs per ds)[q := buf d])"
    using assms by (simp add: slot_bufs_def)
next
  fix t assume "t < length (slot_bufs per (ds[q * per := d]))"
  then have t: "t < S" using assms by (simp add: slot_bufs_def)
  have in1: "q * per < length ds" using assms by simp
  have eq: "t * per = q * per \<longleftrightarrow> t = q" using assms(2) by simp
  show "slot_bufs per (ds[q * per := d]) ! t = (slot_bufs per ds)[q := buf d] ! t"
    using t assms in1 eq
    by (simp add: slot_bufs_nth length_slot_bufs nth_list_update)
qed

lemma place_step:
  assumes len: "length ds = S * per" and per: "0 < per" and S: "0 < S"
    and bnd: "S * per * 2 ^ i < 2 ^ 32" and sb: "stride * i < 2 ^ 32" and k: "k < 2 ^ i"
    and free: "NULL \<in> set (slot_bufs per ds)"
  shows "\<exists>q<S. slot_bufs per ds ! q = NULL
           \<and> place b (S * per) per stride i k ds
               = Some (ds[q * per := (ds ! (q * per))\<lparr>buf := StreamPtr b (stride * i)\<rparr>])"
proof -
  let ?N = "S * per"
  let ?n = "(2::nat) ^ i"
  have N0: "0 < ?N" using per S by simp
  have "?n \<le> ?N * ?n" using N0 by simp
  from this bnd have n32: "?n < 2 ^ 32" by (rule le_less_trans)
  have i32: "i < 32" by (rule power_less_imp_less_exp [OF _ n32]) simp
  have N32: "?N < 2 ^ 32"
  proof -
    have "?N \<le> ?N * ?n" by simp
    from this bnd show ?thesis by (rule le_less_trans)
  qed
  have "?N * k \<le> ?N * ?n" using k by (intro mult_le_mono2) simp
  from this bnd have Nk: "?N * k < 2 ^ 32" by (rule le_less_trans)
  let ?p0 = "(?N * k) div ?n + ?N div ?n div 2"
  have p0: "?p0 < ?N" using N0 k by (rule start_pos_bound)
  let ?q0 = "?p0 div per"
  have q0: "?q0 < S" using p0 per by (simp add: less_mult_imp_div_less)
  have q0p: "?q0 * per \<le> ?p0" by simp
  have e1: "size_t (2 ^ i) = ?n" using i32 by (rule size_t_pow)
  have e2: "size_t (int ?N * int k) = ?N * k" using Nk by (rule size_t_mult)
  have e3: "size_t (int ((?N * k) div ?n) + int (?N div ?n div 2)) = ?p0"
    using p0 N32 by (intro size_t_add) simp
  have "?q0 * per < 2 ^ 32" by (rule le_less_trans [OF q0p less_trans [OF p0 N32]])
  then have e4: "size_t (int ?q0 * int per) = ?q0 * per" by (rule size_t_mult)
  have e5: "size_t (int stride * int i) = stride * i" using sb by (rule size_t_mult)
  from free obtain qf where qf: "qf < S" "slot_bufs per ds ! qf = NULL"
    using len per by (auto simp: in_set_conv_nth length_slot_bufs)
  then have "buf (ds ! (qf * per)) = NULL" using len per by (simp add: slot_bufs_nth)
  then have "buf (ds ! (((?q0 + (qf + S - ?q0)) mod S) * per)) = NULL"
    using cyclic_reach [OF q0 qf(1)] by simp
  from find_free_aligned [OF len per N32 q0 this]
  obtain q where q: "q < S" "find_free ds per ?N (?q0 * per) = Some (q * per)"
    "buf (ds ! (q * per)) = NULL" by blast
  have "place b ?N per stride i k ds
          = Some (ds[q * per := (ds ! (q * per))\<lparr>buf := StreamPtr b (stride * i)\<rparr>])"
    unfolding place_def Let_def e1 e2 e3 e4 e5 q(2) by simp
  moreover have "slot_bufs per ds ! q = NULL" using q len per by (simp add: slot_bufs_nth)
  ultimately show ?thesis using q(1) by blast
qed

lemma place_inv:
  assumes inv: "ring_inv S per ds M" and lt: "size M < S" and per: "0 < per"
    and bnd: "S * per * 2 ^ i < 2 ^ 32" and sb: "stride * i < 2 ^ 32" and k: "k < 2 ^ i"
  shows "\<exists>ds'. place b (S * per) per stride i k ds = Some ds'
           \<and> ring_inv S per ds' (add_mset (StreamPtr b (stride * i)) M)"
proof -
  from inv have len: "length ds = S * per"
    and ms: "mset (slot_bufs per ds) = replicate_mset (S - size M) NULL + M"
    by (simp_all add: ring_inv_def)
  from lt have S: "0 < S" by simp
  from lt have "NULL \<in># replicate_mset (S - size M) NULL + M" by simp
  with ms have "NULL \<in># mset (slot_bufs per ds)" by simp
  then have free: "NULL \<in> set (slot_bufs per ds)" by simp
  from place_step [OF len per S bnd sb k free, of b]
  obtain q where q: "q < S" "slot_bufs per ds ! q = NULL"
    "place b (S * per) per stride i k ds
       = Some (ds[q * per := (ds ! (q * per))\<lparr>buf := StreamPtr b (stride * i)\<rparr>])" by blast
  let ?ds' = "ds[q * per := (ds ! (q * per))\<lparr>buf := StreamPtr b (stride * i)\<rparr>]"
  have "slot_bufs per ?ds' = (slot_bufs per ds)[q := StreamPtr b (stride * i)]"
    using slot_bufs_update [OF len per q(1)] by simp
  then have "mset (slot_bufs per ?ds')
        = add_mset (StreamPtr b (stride * i)) (mset (slot_bufs per ds) - {#NULL#})"
    using q(1,2) len per by (simp add: mset_update length_slot_bufs)
  also have "mset (slot_bufs per ds) - {#NULL#} = replicate_mset (S - Suc (size M)) NULL + M"
  proof -
    from lt have "S - size M = Suc (S - Suc (size M))" by simp
    then show ?thesis unfolding ms by simp
  qed
  finally have "ring_inv S per ?ds' (add_mset (StreamPtr b (stride * i)) M)"
    using len lt by (simp add: ring_inv_def)
  with q(3) show ?thesis by simp
qed

lemma place_level_inv:
  assumes per: "0 < per" and bnd: "S * per * 2 ^ i < 2 ^ 32" and sb: "stride * i < 2 ^ 32"
  shows "ring_inv S per ds M \<Longrightarrow> size M + n \<le> S \<Longrightarrow> n \<le> 2 ^ i \<Longrightarrow>
         \<exists>ds'. fold_opt (\<lambda>k. place b (S * per) per stride i k) [0..<n] ds = Some ds'
           \<and> ring_inv S per ds' (M + replicate_mset n (StreamPtr b (stride * i)))"
proof (induction n)
  case 0
  then show ?case by simp
next
  case (Suc n)
  from Suc.IH Suc.prems obtain ds1 where
    f: "fold_opt (\<lambda>k. place b (S * per) per stride i k) [0..<n] ds = Some ds1"
    and inv1: "ring_inv S per ds1 (M + replicate_mset n (StreamPtr b (stride * i)))"
    by auto
  from Suc.prems have lt: "size (M + replicate_mset n (StreamPtr b (stride * i))) < S" by simp
  from Suc.prems have k: "n < 2 ^ i" by simp
  from place_inv [OF inv1 lt per bnd sb k, of b]
  obtain ds' where "place b (S * per) per stride i n ds1 = Some ds'"
    "ring_inv S per ds' (add_mset (StreamPtr b (stride * i)) (M + replicate_mset n (StreamPtr b (stride * i))))"
    by blast
  with f show ?case by (simp add: fold_opt_snoc)
qed

lemma size_placed: "size (placed b stride n) = 2 ^ n - 1"
  by (induction n) (simp_all add: algebra_simps)

lemma place_levels_inv:
  assumes per: "0 < per"
  shows "ring_inv S per ds {#} \<Longrightarrow> 2 ^ n \<le> S + 1 \<Longrightarrow> S * per * 2 ^ n < 2 ^ 32 \<Longrightarrow>
         stride * n < 2 ^ 32 \<Longrightarrow>
         \<exists>ds'. fold_opt (\<lambda>i. fold_opt (\<lambda>k. place b (S * per) per stride i k) [0..<size_t (2 ^ i)])
                  [0..<n] ds = Some ds'
           \<and> ring_inv S per ds' (placed b stride n)"
proof (induction n)
  case 0
  then show ?case by simp
next
  case (Suc n)
  have "(2::nat) ^ n \<le> 2 ^ Suc n" by simp
  with Suc.prems(2) have p1: "2 ^ n \<le> S + 1" by simp
  have "S * per * 2 ^ n \<le> S * per * 2 ^ Suc n" by (intro mult_le_mono2) simp
  with Suc.prems(3) have p2: "S * per * 2 ^ n < 2 ^ 32" by simp
  have "stride * n \<le> stride * Suc n" by (intro mult_le_mono2) simp
  with Suc.prems(4) have p3: "stride * n < 2 ^ 32" by simp
  from Suc.IH [OF Suc.prems(1) p1 p2 p3] obtain ds1 where
    f: "fold_opt (\<lambda>i. fold_opt (\<lambda>k. place b (S * per) per stride i k) [0..<size_t (2 ^ i)])
          [0..<n] ds = Some ds1"
    and inv1: "ring_inv S per ds1 (placed b stride n)" by blast
  have S0: "0 < S * per"
  proof -
    have "(2::nat) \<le> 2 ^ Suc n" by simp
    from this Suc.prems(2) have "2 \<le> S + 1" by (rule le_trans)
    then show ?thesis using per by simp
  qed
  have "(2::nat) ^ n \<le> S * per * 2 ^ n" using S0 by simp
  from this p2 have n32: "(2::nat) ^ n < 2 ^ 32" by (rule le_less_trans)
  have "n < 32" by (rule power_less_imp_less_exp [OF _ n32]) simp
  then have sz: "size_t (2 ^ n) = 2 ^ n" by (rule size_t_pow)
  have room: "size (placed b stride n) + 2 ^ n \<le> S"
    using Suc.prems(2) by (simp add: size_placed)
  from place_level_inv [OF per p2 p3 inv1 room, of b] obtain ds' where
    "fold_opt (\<lambda>k. place b (S * per) per stride n k) [0..<2 ^ n] ds1 = Some ds'"
    "ring_inv S per ds' (placed b stride n + replicate_mset (2 ^ n) (StreamPtr b (stride * n)))"
    by auto
  with f sz show ?case by (simp add: fold_opt_snoc)
qed

lemma blocks_0: "blocks 0 = 0"
  by (simp add: blocks_def DMA_MAX_XFER_SIZE_def)

lemma blocks_step: "0 < r \<Longrightarrow> blocks r = Suc (blocks (r - min r DMA_MAX_XFER_SIZE))"
  by (auto simp: blocks_def DMA_MAX_XFER_SIZE_def min_def not_le)

lemma blocks_pos: "0 < r \<Longrightarrow> 0 < blocks r"
  by (simp add: blocks_step)

lemma blocks_pred: "0 < r \<Longrightarrow> blocks r = (r - 1) div DMA_MAX_XFER_SIZE + 1"
  by (simp add: blocks_def DMA_MAX_XFER_SIZE_def)

lemma ptr_add_0 [simp]: "ptr_add p 0 = p"
  by (cases p) simp_all

lemma ptr_add_add: "ptr_add (ptr_add p a) c = ptr_add p (a + c)"
  by (cases p) simp_all

lemma take_Suc_update: "i < length ds \<Longrightarrow> take (Suc i) (ds[i := e]) = take i ds @ [e]"
  by (simp add: take_Suc_conv_app_nth)

lemma fill_blocks_spec:
  "i + blocks r \<le> length ds \<Longrightarrow>
   \<exists>ds'. fill_blocks ds i p r = Some (ds', i + blocks r)
     \<and> length ds' = length ds
     \<and> take i ds' = take i ds
     \<and> drop (i + blocks r) ds' = drop (i + blocks r) ds
     \<and> sum_list (map length_f (take (i + blocks r) ds')) = sum_list (map length_f (take i ds)) + r
     \<and> (\<forall>j<blocks r. buf (ds' ! (i + j)) = ptr_add p (j * DMA_MAX_XFER_SIZE)
                       \<and> j * DMA_MAX_XFER_SIZE < r)"
proof (induction ds i p r rule: fill_blocks.induct)
  case (1 ds i p r)
  show ?case
  proof (cases "r = 0")
    case True
    then show ?thesis by (simp add: blocks_0)
  next
    case False
    let ?X = "DMA_MAX_XFER_SIZE"
    let ?blk = "min r ?X"
    let ?e = "(ds ! i)\<lparr>buf := p, length_f := ?blk, size_f := ?blk, owner := 1\<rparr>"
    let ?ds1 = "ds[i := ?e]"
    let ?r' = "r - ?blk"
    from False have r0: "0 < r" by simp
    have bs: "blocks r = Suc (blocks ?r')" using r0 by (rule blocks_step)
    with "1.prems" have il: "i < length ds" and pre: "(i + 1) + blocks ?r' \<le> length ?ds1"
      by simp_all
    from "1.IH" [OF False il pre] obtain ds' where
      f: "fill_blocks ?ds1 (i + 1) (ptr_add p ?blk) ?r' = Some (ds', (i + 1) + blocks ?r')"
      and len: "length ds' = length ?ds1"
      and tk: "take (i + 1) ds' = take (i + 1) ?ds1"
      and dr: "drop ((i + 1) + blocks ?r') ds' = drop ((i + 1) + blocks ?r') ?ds1"
      and sm: "sum_list (map length_f (take ((i + 1) + blocks ?r') ds'))
                = sum_list (map length_f (take (i + 1) ?ds1)) + ?r'"
      and bf: "\<forall>j<blocks ?r'. buf (ds' ! ((i + 1) + j)) = ptr_add (ptr_add p ?blk) (j * ?X)
                                 \<and> j * ?X < ?r'"
      by blast
    have idx: "i + blocks r = (i + 1) + blocks ?r'" using bs by simp
    have c1: "fill_blocks ds i p r = Some (ds', i + blocks r)"
      using False il f idx by (subst fill_blocks.simps) simp
    have c2: "length ds' = length ds" using len by simp
    have tk1: "take (Suc i) ds' = take i ds @ [?e]"
      using tk il by (simp add: take_Suc_update)
    have "take i ds' = take i (take (Suc i) ds')" by (simp add: min_def)
    also have "\<dots> = take i ds" unfolding tk1 using il by simp
    finally have c3: "take i ds' = take i ds" .
    have c4: "drop (i + blocks r) ds' = drop (i + blocks r) ds"
      using dr idx by simp
    have "sum_list (map length_f (take (Suc i) ?ds1)) = sum_list (map length_f (take i ds)) + ?blk"
      using il by (simp add: take_Suc_update)
    with sm idx have c5: "sum_list (map length_f (take (i + blocks r) ds'))
                           = sum_list (map length_f (take i ds)) + r"
      by simp
    have e0: "ds' ! i = ?e"
    proof -
      have "ds' ! i = take (Suc i) ds' ! i" by simp
      also have "\<dots> = ?e" unfolding tk1 using il by (simp add: nth_append)
      finally show ?thesis .
    qed
    have c6: "\<forall>j<blocks r. buf (ds' ! (i + j)) = ptr_add p (j * ?X) \<and> j * ?X < r"
    proof (intro allI impI)
      fix j assume j: "j < blocks r"
      show "buf (ds' ! (i + j)) = ptr_add p (j * ?X) \<and> j * ?X < r"
      proof (cases j)
        case 0
        with e0 r0 show ?thesis by simp
      next
        case (Suc j')
        with j bs have j': "j' < blocks ?r'" by simp
        then have "0 < blocks ?r'" by simp
        then have "?r' \<noteq> 0" by (auto simp: blocks_0 intro: ccontr)
        then have blk: "?blk = ?X" and big: "?X < r" by (simp_all add: min_def split: if_splits)
        from bf j' have a: "buf (ds' ! ((i + 1) + j')) = ptr_add (ptr_add p ?blk) (j' * ?X)"
          and b: "j' * ?X < ?r'" by simp_all
        from a have "buf (ds' ! (i + j)) = ptr_add p (j * ?X)"
          unfolding Suc blk ptr_add_add by (simp add: algebra_simps)
        moreover from b blk big have "j * ?X < r" unfolding Suc by simp
        ultimately show ?thesis by simp
      qed
    qed
    from c1 c2 c3 c4 c5 c6 show ?thesis by blast
  qed
qed


lemma nth_take_eq: "take n xs = take n ys \<Longrightarrow> t < n \<Longrightarrow> xs ! t = ys ! t"
  by (metis nth_take)

lemma nth_drop_eq:
  assumes "drop n xs = drop n ys" "n \<le> t" "t < length xs" "length xs = length ys"
  shows "xs ! t = ys ! t"
proof -
  have "xs ! t = drop n xs ! (t - n)" using assms(2,3) by simp
  also have "\<dots> = drop n ys ! (t - n)" using assms(1) by simp
  also have "\<dots> = ys ! t" using assms(2,3,4) by simp
  finally show ?thesis .
qed

lemma fill_loop_spec:
  assumes per: "per = blocks stride" and st: "0 < stride"
  shows "length ds = S * per \<Longrightarrow> q \<le> S \<Longrightarrow>
    \<exists>ds'. fill_loop b (S * per) stride D ds (q * per) = Some ds'
      \<and> length ds' = length ds
      \<and> take (q * per) ds' = take (q * per) ds
      \<and> sum_list (map length_f ds') = sum_list (map length_f (take (q * per) ds)) + (S - q) * stride
      \<and> (\<forall>s j. q \<le> s \<and> s < S \<and> j < per \<longrightarrow>
            buf (ds' ! (s * per + j))
              = ptr_add (fill_ptr b stride D (buf (ds ! (s * per)))) (j * DMA_MAX_XFER_SIZE)
            \<and> j * DMA_MAX_XFER_SIZE < stride)"
proof (induction "S - q" arbitrary: q ds)
  case 0
  then have q: "q = S" by simp
  have "fill_loop b (S * per) stride D ds (S * per) = Some ds"
    by (subst fill_loop.simps) simp
  with q "0.prems" show ?case by auto
next
  case (Suc n)
  let ?X = "DMA_MAX_XFER_SIZE"
  let ?i = "q * per"
  from Suc.hyps(2) have qS: "q < S" by simp
  have per0: "0 < per" unfolding per using st by (rule blocks_pos)
  from qS per0 have "q * per < S * per" by (rule mult_less_mono1)
  then have il: "?i < length ds" and ic: "?i < S * per" using Suc.prems(1) by simp_all
  let ?p0 = "fill_ptr b stride D (buf (ds ! ?i))"
  let ?ds1 = "if buf (ds ! ?i) = NULL
              then ds[?i := (ds ! ?i)\<lparr>buf := StreamPtr b (size_t (int stride * (int D - 1)))\<rparr>]
              else ds"
  have l1: "length ?ds1 = length ds" by simp
  have t1: "take ?i ?ds1 = take ?i ds" by simp
  have n1: "t \<noteq> ?i \<Longrightarrow> ?ds1 ! t = ds ! t" for t by simp
  have "Suc q * per \<le> S * per" using qS by (intro mult_le_mono1) simp
  then have nx: "?i + per = Suc q * per" and fit: "?i + blocks stride \<le> length ?ds1"
    using Suc.prems(1) per by (simp_all add: algebra_simps)
  from fill_blocks_spec [OF fit, of ?p0] obtain ds2 where
    fb: "fill_blocks ?ds1 ?i ?p0 stride = Some (ds2, ?i + blocks stride)"
    and l2: "length ds2 = length ?ds1"
    and t2: "take ?i ds2 = take ?i ?ds1"
    and d2: "drop (?i + blocks stride) ds2 = drop (?i + blocks stride) ?ds1"
    and s2: "sum_list (map length_f (take (?i + blocks stride) ds2))
              = sum_list (map length_f (take ?i ?ds1)) + stride"
    and b2: "\<forall>j<blocks stride. buf (ds2 ! (?i + j)) = ptr_add ?p0 (j * ?X) \<and> j * ?X < stride"
    by blast
  have l2': "length ds2 = S * per" using l2 l1 Suc.prems(1) by simp
  have nS: "n = S - Suc q" using Suc.hyps(2) by simp
  have qS': "Suc q \<le> S" using qS by simp
  from Suc.hyps(1) [OF nS l2' qS'] obtain ds' where
    fl: "fill_loop b (S * per) stride D ds2 (Suc q * per) = Some ds'"
    and l3: "length ds' = length ds2"
    and t3: "take (Suc q * per) ds' = take (Suc q * per) ds2"
    and s3: "sum_list (map length_f ds')
              = sum_list (map length_f (take (Suc q * per) ds2)) + (S - Suc q) * stride"
    and b3: "\<forall>s j. Suc q \<le> s \<and> s < S \<and> j < per \<longrightarrow>
               buf (ds' ! (s * per + j))
                 = ptr_add (fill_ptr b stride D (buf (ds2 ! (s * per)))) (j * ?X)
               \<and> j * ?X < stride"
    by blast
  have step: "fill_loop b (S * per) stride D ds ?i = fill_loop b (S * per) stride D ds2 (Suc q * per)"
    apply (subst fill_loop.simps)
    apply (simp only: ic il if_True)
    apply (fold fill_ptr_def)
    apply (simp only: fb option.case fst_conv snd_conv nx per [symmetric])
    done
  have c1: "fill_loop b (S * per) stride D ds ?i = Some ds'" using step fl by simp
  have c2: "length ds' = length ds" using l3 l2 l1 by simp
  have "take ?i ds' = take ?i (take (Suc q * per) ds')" by (simp add: min_def)
  also have "\<dots> = take ?i (take (Suc q * per) ds2)" unfolding t3 ..
  also have "\<dots> = take ?i ds2" by (simp add: min_def)
  also have "\<dots> = take ?i ds" using t2 t1 by simp
  finally have c3: "take ?i ds' = take ?i ds" .
  have s2': "sum_list (map length_f (take (Suc q * per) ds2))
              = sum_list (map length_f (take ?i ds)) + stride"
    using s2 unfolding per [symmetric] nx t1 .
  have s4: "sum_list (map length_f ds')
          = sum_list (map length_f (take ?i ds)) + stride + (S - Suc q) * stride"
    unfolding s3 s2' ..
  have "stride + (S - Suc q) * stride = (S - q) * stride"
  proof -
    have "S - q = Suc (S - Suc q)" using qS by simp
    then show ?thesis by simp
  qed
  with s4 have c4: "sum_list (map length_f ds')
          = sum_list (map length_f (take ?i ds)) + (S - q) * stride" by simp
  have c5: "\<forall>s j. q \<le> s \<and> s < S \<and> j < per \<longrightarrow>
              buf (ds' ! (s * per + j))
                = ptr_add (fill_ptr b stride D (buf (ds ! (s * per)))) (j * ?X)
              \<and> j * ?X < stride"
  proof (intro allI impI)
    fix s j assume a: "q \<le> s \<and> s < S \<and> j < per"
    show "buf (ds' ! (s * per + j))
            = ptr_add (fill_ptr b stride D (buf (ds ! (s * per)))) (j * ?X) \<and> j * ?X < stride"
    proof (cases "s = q")
      case True
      from a have "?i + j < Suc q * per" by (simp add: algebra_simps)
      with t3 have "ds' ! (?i + j) = ds2 ! (?i + j)" by (rule nth_take_eq)
      with b2 a per True show ?thesis by simp
    next
      case False
      with a have s: "Suc q \<le> s" "s < S" "j < per" by simp_all
      have ge: "Suc q * per \<le> s * per" using s(1) by (rule mult_le_mono1)
      have lt: "s * per < length ds2" using s(2) per0 l2' by simp
      have d2': "drop (Suc q * per) ds2 = drop (Suc q * per) ?ds1"
        using d2 unfolding per [symmetric] nx .
      have "ds2 ! (s * per) = ?ds1 ! (s * per)"
        by (rule nth_drop_eq [OF d2' ge lt l2])
      also have "\<dots> = ds ! (s * per)"
      proof (rule n1)
        from False per0 show "s * per \<noteq> ?i" by simp
      qed
      finally have "buf (ds2 ! (s * per)) = buf (ds ! (s * per))" by simp
      with b3 s show ?thesis by simp
    qed
  qed
  from c1 c2 c3 c4 c5 show ?case by blast
qed

lemma link_fold:
  "n \<le> length ds \<Longrightarrow>
   length (fold (\<lambda>i ds. ds[i := (ds ! i)\<lparr>stqe_next := DescPtr b (i + 1)\<rparr>]) [0..<n] ds) = length ds
   \<and> (\<forall>i<length ds.
        fold (\<lambda>i ds. ds[i := (ds ! i)\<lparr>stqe_next := DescPtr b (i + 1)\<rparr>]) [0..<n] ds ! i
          = (if i < n then (ds ! i)\<lparr>stqe_next := DescPtr b (i + 1)\<rparr> else ds ! i))"
proof (induction n)
  case 0
  then show ?case by simp
next
  case (Suc n)
  then show ?case by (auto simp: nth_list_update)
qed

lemma link_ring_spec:
  assumes "0 < cnt" "cnt < 2 ^ 32" "length ds = cnt"
  shows "length (link_ring b cnt ds) = cnt
       \<and> (\<forall>i<cnt. link_ring b cnt ds ! i
              = (ds ! i)\<lparr>stqe_next := DescPtr b (if i = cnt - 1 then 0 else i + 1)\<rparr>)"
proof -
  have sz: "size_t (int cnt - 1) = cnt - 1"
    using assms(1,2) by (simp add: size_t_def nat_diff_distrib')
  have le: "cnt - 1 \<le> length ds" using assms(3) by simp
  from link_fold [OF le, of b] assms show ?thesis
    unfolding link_ring_def Let_def sz by (auto simp: nth_list_update)
qed

lemma placed_member:
  "p \<in># placed b stride n \<Longrightarrow> \<exists>l<n. p = StreamPtr b (stride * l)"
  by (induction n) (auto simp: less_Suc_eq split: if_splits)

lemma placed_count:
  "0 < stride \<Longrightarrow> count (placed b stride n) (StreamPtr b (stride * l)) = (if l < n then 2 ^ l else 0)"
  by (induction n) (auto simp: less_Suc_eq)

lemma ring_inv_init:
  assumes "0 < per"
  shows "ring_inv S per (replicate (S * per) zero_desc) {#}"
proof -
  have "slot_bufs per (replicate (S * per) zero_desc) = replicate S NULL"
  proof (rule nth_equalityI)
    show "length (slot_bufs per (replicate (S * per) zero_desc)) = length (replicate S NULL)"
      using assms by (simp add: slot_bufs_def)
  next
    fix q assume "q < length (slot_bufs per (replicate (S * per) zero_desc))"
    then have q: "q < S" using assms by (simp add: slot_bufs_def)
    then have "q * per < S * per" using assms by simp
    with q assms show "slot_bufs per (replicate (S * per) zero_desc) ! q = replicate S NULL ! q"
      by (simp add: slot_bufs_def zero_desc_def)
  qed
  then show ?thesis by (simp add: ring_inv_def)
qed

lemma fill_ptr_placed:
  assumes "ring_inv S per ds1 (placed b stride n)" and "S = 2 ^ Suc n - 1"
    and "size_t (int stride * (int (Suc n) - 1)) = stride * n"
  shows "image_mset (fill_ptr b stride (Suc n)) (mset (slot_bufs per ds1)) = placed b stride (Suc n)"
proof -
  let ?M = "placed b stride n"
  let ?f = "fill_ptr b stride (Suc n)"
  from assms(1) have ms: "mset (slot_bufs per ds1) = replicate_mset (S - size ?M) NULL + ?M"
    by (simp add: ring_inv_def)
  have "S - size ?M = 2 ^ n" using assms(2) by (simp add: size_placed)
  moreover have "image_mset ?f ?M = ?M"
  proof -
    have "image_mset ?f ?M = image_mset (\<lambda>x. x) ?M"
      by (rule image_mset_cong) (auto simp: fill_ptr_def dest: placed_member)
    then show ?thesis by simp
  qed
  moreover have "?f NULL = StreamPtr b (stride * n)"
    using assms(3) by (simp add: fill_ptr_def)
  ultimately show ?thesis by (simp add: ms)
qed


lemma ring_core:
  assumes per: "per = blocks stride" and st: "0 < stride" and D: "D = Suc n"
    and S: "S = 2 ^ D - 1" and bnd: "S * per * 2 ^ n < 2 ^ 32" and sb: "stride * D < 2 ^ 32"
  shows "\<exists>ds1 ds2. place_levels b (S * per) per stride D (replicate (S * per) zero_desc) = Some ds1
           \<and> fill_loop b (S * per) stride D ds1 0 = Some ds2
           \<and> length (link_ring b (S * per) ds2) = S * per
           \<and> (\<forall>i<S * per. stqe_next (link_ring b (S * per) ds2 ! i)
                  = DescPtr b (if i = S * per - 1 then 0 else i + 1))
           \<and> (\<forall>i<S * per. \<exists>off. off < stride * D \<and> buf (link_ring b (S * per) ds2 ! i) = StreamPtr b off)
           \<and> sum_list (map length_f (link_ring b (S * per) ds2)) = S * stride
           \<and> mset (slot_bufs per (link_ring b (S * per) ds2)) = placed b stride D"
proof -
  let ?N = "S * per"
  let ?X = "DMA_MAX_XFER_SIZE"
  have per0: "0 < per" unfolding per using st by (rule blocks_pos)
  have p2: "(2::nat) \<le> 2 ^ Suc n" using one_le_power [of "2::nat" n] by simp
  have S0: "0 < S" using p2 unfolding S D by arith
  have N0: "0 < ?N" using per0 S0 by simp
  have "?N \<le> ?N * 2 ^ n" by simp
  from this bnd have N32: "?N < 2 ^ 32" by (rule le_less_trans)
  have "stride * n \<le> stride * D" unfolding D by (intro mult_le_mono2) simp
  from this sb have sn: "stride * n < 2 ^ 32" by (rule le_less_trans)
  have D32: "D < 2 ^ 32"
  proof -
    have "D \<le> stride * D" using st by simp
    from this sb show ?thesis by (rule le_less_trans)
  qed
  have szD: "size_t (int D - 1) = n"
    using D32 unfolding D by (simp add: size_t_def)
  have szP: "size_t (int stride * (int D - 1)) = stride * n"
  proof -
    have "int D - 1 = int n" unfolding D by simp
    then show ?thesis using size_t_mult [OF sn] by simp
  qed
  \<comment> \<open>the placement of all planes but the last\<close>
  have pw: "2 ^ n \<le> S + 1" unfolding S D by simp
  from place_levels_inv [OF per0 ring_inv_init [OF per0] pw bnd sn, of b]
  obtain ds1 where
    pl: "place_levels b ?N per stride D (replicate ?N zero_desc) = Some ds1"
    and inv1: "ring_inv S per ds1 (placed b stride n)"
    unfolding place_levels_def szD by blast
  from inv1 have len1: "length ds1 = ?N" by (simp add: ring_inv_def)
  \<comment> \<open>the fill loop\<close>
  from fill_loop_spec [OF per st len1, of 0 b D]
  obtain ds2 where
    fl: "fill_loop b ?N stride D ds1 0 = Some ds2"
    and len2: "length ds2 = ?N"
    and sum2: "sum_list (map length_f ds2) = S * stride"
    and buf2: "\<And>s j. s < S \<Longrightarrow> j < per \<Longrightarrow>
                 buf (ds2 ! (s * per + j))
                   = ptr_add (fill_ptr b stride D (buf (ds1 ! (s * per)))) (j * ?X)
                 \<and> j * ?X < stride"
    using len1 by auto
  have sl2: "slot_bufs per ds2 = map (fill_ptr b stride D) (slot_bufs per ds1)"
  proof (rule nth_equalityI)
    show "length (slot_bufs per ds2) = length (map (fill_ptr b stride D) (slot_bufs per ds1))"
      using len1 len2 per0 by (simp add: length_slot_bufs)
  next
    fix s assume "s < length (slot_bufs per ds2)"
    then have s: "s < S" using len2 per0 by (simp add: length_slot_bufs)
    from buf2 [OF s per0] have "buf (ds2 ! (s * per)) = fill_ptr b stride D (buf (ds1 ! (s * per)))"
      by simp
    with s len1 len2 per0
    show "slot_bufs per ds2 ! s = map (fill_ptr b stride D) (slot_bufs per ds1) ! s"
      by (simp add: slot_bufs_nth length_slot_bufs)
  qed
  have ms2: "mset (slot_bufs per ds2) = placed b stride D"
    unfolding sl2 D using fill_ptr_placed [OF inv1 S [unfolded D] szP [unfolded D]] by simp
  have into: "\<exists>off. off < stride * D \<and> buf (ds2 ! i) = StreamPtr b off" if i: "i < ?N" for i
  proof -
    let ?s = "i div per" and ?j = "i mod per"
    have s: "?s < S" using i per0 by (simp add: less_mult_imp_div_less)
    have j: "?j < per" using per0 by simp
    have ieq: "?s * per + ?j = i" by simp
    from buf2 [OF s j] have b: "buf (ds2 ! i)
        = ptr_add (fill_ptr b stride D (buf (ds1 ! (?s * per)))) (?j * ?X)"
      and jx: "?j * ?X < stride" unfolding ieq by simp_all
    have "fill_ptr b stride D (buf (ds1 ! (?s * per))) = slot_bufs per ds2 ! ?s"
      unfolding sl2 using s len1 per0 by (simp add: slot_bufs_nth length_slot_bufs)
    also have "\<dots> \<in> set (slot_bufs per ds2)"
      using s len2 per0 by (simp add: length_slot_bufs)
    finally have "fill_ptr b stride D (buf (ds1 ! (?s * per))) \<in># placed b stride D"
      using ms2 by (metis set_mset_mset)
    then obtain l where l: "l < D"
      "fill_ptr b stride D (buf (ds1 ! (?s * per))) = StreamPtr b (stride * l)"
      by (auto dest: placed_member)
    have "stride * l + stride \<le> stride * D"
    proof -
      have "Suc l \<le> D" using l(1) by simp
      then have "stride * Suc l \<le> stride * D" by (rule mult_le_mono2)
      then show ?thesis by simp
    qed
    with jx have "stride * l + ?j * ?X < stride * D" by simp
    moreover have "buf (ds2 ! i) = StreamPtr b (stride * l + ?j * ?X)"
      unfolding b l(2) by simp
    ultimately show ?thesis by blast
  qed
  \<comment> \<open>the links\<close>
  note lk = link_ring_spec [OF N0 N32 len2, of b]
  from lk have c1: "length (link_ring b ?N ds2) = ?N" by simp
  from lk have nth: "\<And>i. i < ?N \<Longrightarrow> link_ring b ?N ds2 ! i
      = (ds2 ! i)\<lparr>stqe_next := DescPtr b (if i = ?N - 1 then 0 else i + 1)\<rparr>" by simp
  have c2: "\<forall>i<?N. stqe_next (link_ring b ?N ds2 ! i) = DescPtr b (if i = ?N - 1 then 0 else i + 1)"
    using nth by simp
  have c3: "\<forall>i<?N. \<exists>off. off < stride * D \<and> buf (link_ring b ?N ds2 ! i) = StreamPtr b off"
    using nth into by simp
  have "map length_f (link_ring b ?N ds2) = map length_f ds2"
    by (rule nth_equalityI) (simp_all add: c1 len2 nth)
  with sum2 have c4: "sum_list (map length_f (link_ring b ?N ds2)) = S * stride" by simp
  have "slot_bufs per (link_ring b ?N ds2) = slot_bufs per ds2"
  proof (rule nth_equalityI)
    show "length (slot_bufs per (link_ring b ?N ds2)) = length (slot_bufs per ds2)"
      using c1 len2 per0 by (simp add: length_slot_bufs)
  next
    fix s assume "s < length (slot_bufs per (link_ring b ?N ds2))"
    then have s: "s < S" using c1 per0 by (simp add: length_slot_bufs)
    then have "s * per < ?N" using per0 by simp
    with s c1 len2 per0 nth
    show "slot_bufs per (link_ring b ?N ds2) ! s = slot_bufs per ds2 ! s"
      by (simp add: slot_bufs_nth)
  qed
  with ms2 have c5: "mset (slot_bufs per (link_ring b ?N ds2)) = placed b stride D" by simp
  from pl fl c1 c2 c3 c4 c5 show ?thesis by blast
qed

lemma ring_bounds:
  assumes "stride \<le> 33422850" and "D = Suc n" and "D \<le> 8"
  shows "(2 ^ D - 1) * blocks stride * 2 ^ n < (2::nat) ^ 32" and "stride * D < 2 ^ 32"
proof -
  have "blocks stride * DMA_MAX_XFER_SIZE \<le> stride + (DMA_MAX_XFER_SIZE - 1)"
    unfolding blocks_def by simp
  with assms(1) have per: "blocks stride \<le> 8168" by (simp add: DMA_MAX_XFER_SIZE_def)
  have "(2::nat) ^ D \<le> 2 ^ 8" using assms(3) by (intro power_increasing) simp_all
  then have S: "(2::nat) ^ D - 1 \<le> 255" by simp
  have "n \<le> 7" using assms(2,3) by simp
  then have "(2::nat) ^ n \<le> 2 ^ 7" by (intro power_increasing) simp_all
  then have n: "(2::nat) ^ n \<le> 128" by simp
  have "(2 ^ D - 1) * blocks stride * 2 ^ n \<le> 255 * 8168 * (128::nat)"
    by (intro mult_le_mono S per n)
  then show "(2 ^ D - 1) * blocks stride * 2 ^ n < (2::nat) ^ 32" by simp
  have "stride * D \<le> 33422850 * 8" using assms(1,3) by (intro mult_le_mono)
  then show "stride * D < 2 ^ 32" by simp
qed

lemma stride_bound: "2 * unat (w::u16) * unat (r::u8) \<le> 33422850"
proof -
  have "unat w \<le> 65535" using unsigned_less [of w, where ?'a = nat] by simp
  moreover have "unat r \<le> 255" using unsigned_less [of r, where ?'a = nat] by simp
  ultimately have "unat w * unat r \<le> 65535 * 255" by (intro mult_le_mono)
  then show ?thesis by simp
qed

lemma initialize_buffer_spec:
  assumes a1: "\<forall>n. heap_caps_malloc env (StreamData b) n"
    and a2: "\<forall>n. heap_caps_malloc env (DmaDesc b) n"
    and D1: "1 \<le> unat (color_depth m)" and D8: "unat (color_depth m) \<le> 8"
    and W: "0 < unat (width m)" and R: "0 < unat (rows m)"
  shows "\<exists>ds. initialize_buffer env m b
            = Some (Inr (m\<lparr>dma_desc_count := (2 ^ unat (color_depth m) - 1)
                                * blocks (2 * unat (width m) * unat (rows m)),
                  buffer := (buffer m)[b :=
                    \<lparr>stream_data = replicate (2 * unat (width m) * unat (rows m) * unat (color_depth m))
                                     (if invert m then 0xff else 0),
                     dma_desc = ds\<rparr>]\<rparr>))
          \<and> length ds = (2 ^ unat (color_depth m) - 1) * blocks (2 * unat (width m) * unat (rows m))
          \<and> (\<forall>i<length ds. stqe_next (ds ! i) = DescPtr b (if i = length ds - 1 then 0 else i + 1))
          \<and> (\<forall>i<length ds. \<exists>off. off < 2 * unat (width m) * unat (rows m) * unat (color_depth m)
                                 \<and> buf (ds ! i) = StreamPtr b off)
          \<and> sum_list (map length_f ds)
               = (2 ^ unat (color_depth m) - 1) * (2 * unat (width m) * unat (rows m))
          \<and> mset (slot_bufs (blocks (2 * unat (width m) * unat (rows m))) ds)
               = placed b (2 * unat (width m) * unat (rows m)) (unat (color_depth m))"
proof -
  let ?D = "unat (color_depth m)"
  let ?stride = "2 * unat (width m) * unat (rows m)"
  let ?per = "blocks ?stride"
  let ?S = "(2::nat) ^ ?D - 1"
  obtain n where D: "?D = Suc n" using D1 by (cases ?D) simp_all
  have st: "0 < ?stride" using W R by simp
  have sle: "?stride \<le> 33422850" by (rule stride_bound)
  note bd = ring_bounds [OF sle D D8]
  have S: "?S = 2 ^ ?D - 1" ..
  from ring_core [OF refl st D S bd, of b] obtain ds1 ds2 where
    pl: "place_levels b (?S * ?per) ?per ?stride ?D (replicate (?S * ?per) zero_desc) = Some ds1"
    and fl: "fill_loop b (?S * ?per) ?stride ?D ds1 0 = Some ds2"
    and c1: "length (link_ring b (?S * ?per) ds2) = ?S * ?per"
    and c2: "\<forall>i<?S * ?per. stqe_next (link_ring b (?S * ?per) ds2 ! i)
                  = DescPtr b (if i = ?S * ?per - 1 then 0 else i + 1)"
    and c3: "\<forall>i<?S * ?per. \<exists>off. off < ?stride * ?D \<and> buf (link_ring b (?S * ?per) ds2 ! i) = StreamPtr b off"
    and c4: "sum_list (map length_f (link_ring b (?S * ?per) ds2)) = ?S * ?stride"
    and c5: "mset (slot_bufs ?per (link_ring b (?S * ?per) ds2)) = placed b ?stride ?D"
    by blast
  have e_buf: "size_t (int ?stride * int ?D) = ?stride * ?D"
    using bd(2) by (rule size_t_mult)
  have s32: "?stride < 2 ^ 32" using sle by simp
  have "size_t (int ?stride - 1) = ?stride - 1"
    using st s32 by (rule size_t_pred)
  then have e_per: "size_t (int ?stride - 1) div DMA_MAX_XFER_SIZE + 1 = ?per"
    using blocks_pred [OF st] by simp
  have N32: "?S * ?per < 2 ^ 32"
  proof -
    have "?S * ?per \<le> ?S * ?per * 2 ^ n" by simp
    from this bd(1) show ?thesis by (rule le_less_trans)
  qed
  have "(2 ^ ?D - 1 :: int) = int ?S" by (simp add: of_nat_diff)
  then have e_cnt: "size_t ((2 ^ ?D - 1) * int ?per) = ?S * ?per"
    using size_t_mult [OF N32] by simp
  have D31: "\<not> 31 \<le> ?D" using D8 by simp
  have "initialize_buffer env m b
          = Some (Inr (m\<lparr>dma_desc_count := ?S * ?per,
                buffer := (buffer m)[b :=
                  \<lparr>stream_data = replicate (?stride * ?D) (if invert m then 0xff else 0),
                   dma_desc = link_ring b (?S * ?per) ds2\<rparr>]\<rparr>))"
    unfolding initialize_buffer_def Let_def e_buf e_per e_cnt
    using D31 a1 a2 pl fl by simp
  with c1 c2 c3 c4 c5 show ?thesis by auto
qed


lemma sum_pow2: "(\<Sum>l<n. (2::nat) ^ l) = 2 ^ n - 1"
proof (induction n)
  case 0
  show ?case by simp
next
  case (Suc n)
  have "(1::nat) \<le> 2 ^ n" by (rule one_le_power) simp
  with Suc show ?case by simp
qed

text \<open>
  C3. For a geometry with width \<open>W > 0\<close>, \<open>rows > 0\<close> and colour depth \<open>D\<close> in \<open>[1, 8]\<close>, and
  when both allocations succeed, \<open>initialize_buffer\<close> returns and leaves exactly
  \<open>N = (2 ^ D - 1) * seg\<close> descriptors, \<open>seg\<close> being \<open>2 * W * rows / 4092\<close> rounded up. Every
  descriptor's \<open>buf\<close> is non-null and points into the stream buffer, descriptor \<open>i\<close> links to
  descriptor \<open>i + 1\<close> and the last one back to descriptor 0, and the \<open>length\<close> fields add up
  to \<open>(2 ^ D - 1) * 2 * W * rows\<close>.
\<close>

theorem build_ring_descriptors:
  assumes "\<forall>n. heap_caps_malloc env (StreamData b) n"
    and "\<forall>n. heap_caps_malloc env (DmaDesc b) n"
    and "1 \<le> unat (color_depth m)" and "unat (color_depth m) \<le> 8"
    and "0 < unat (width m)" and "0 < unat (rows m)" and "b < length (buffer m)"
  shows "\<exists>m'. initialize_buffer env m b = Some (Inr m')
           \<and> (let N = (2 ^ unat (color_depth m) - 1) * blocks (2 * unat (width m) * unat (rows m));
                   ds = dma_desc (buffer m' ! b)
               in dma_desc_count m' = N \<and> length ds = N
                \<and> (\<forall>i<N. buf (ds ! i) \<noteq> NULL
                       \<and> (\<exists>off. off < length (stream_data (buffer m' ! b))
                                \<and> buf (ds ! i) = StreamPtr b off))
                \<and> (\<forall>i<N. stqe_next (ds ! i) = DescPtr b (if i = N - 1 then 0 else i + 1))
                \<and> sum_list (map length_f ds)
                     = (2 ^ unat (color_depth m) - 1) * (2 * unat (width m) * unat (rows m)))"
proof -
  from initialize_buffer_spec [OF assms(1-6)] obtain ds where
    ib: "initialize_buffer env m b
            = Some (Inr (m\<lparr>dma_desc_count := (2 ^ unat (color_depth m) - 1)
                                * blocks (2 * unat (width m) * unat (rows m)),
                  buffer := (buffer m)[b :=
                    \<lparr>stream_data = replicate (2 * unat (width m) * unat (rows m) * unat (color_depth m))
                                     (if invert m then 0xff else 0),
                     dma_desc = ds\<rparr>]\<rparr>))"
    and len: "length ds = (2 ^ unat (color_depth m) - 1) * blocks (2 * unat (width m) * unat (rows m))"
    and lk: "\<forall>i<length ds. stqe_next (ds ! i) = DescPtr b (if i = length ds - 1 then 0 else i + 1)"
    and bf: "\<forall>i<length ds. \<exists>off. off < 2 * unat (width m) * unat (rows m) * unat (color_depth m)
                                 \<and> buf (ds ! i) = StreamPtr b off"
    and sm: "sum_list (map length_f ds)
               = (2 ^ unat (color_depth m) - 1) * (2 * unat (width m) * unat (rows m))"
    by blast
  have "\<forall>i<length ds. buf (ds ! i) \<noteq> NULL
          \<and> (\<exists>off. off < 2 * unat (width m) * unat (rows m) * unat (color_depth m)
                   \<and> buf (ds ! i) = StreamPtr b off)"
    using bf by auto
  with ib len lk sm assms(7) show ?thesis
    by (simp add: Let_def)
qed

theorem build_ring_descriptors_witness:
  "(\<forall>n. heap_caps_malloc env_ok (StreamData 0) n) \<and> (\<forall>n. heap_caps_malloc env_ok (DmaDesc 0) n)
   \<and> 1 \<le> unat (color_depth geo3) \<and> unat (color_depth geo3) \<le> 8
   \<and> 0 < unat (width geo3) \<and> 0 < unat (rows geo3) \<and> 0 < length (buffer geo3)
   \<and> (\<exists>m'. initialize_buffer env_ok geo3 0 = Some (Inr m')
         \<and> dma_desc_count m' = 7 \<and> length (dma_desc (buffer m' ! 0)) = 7
         \<and> stqe_next (dma_desc (buffer m' ! 0) ! 6) = DescPtr 0 0
         \<and> stqe_next (dma_desc (buffer m' ! 0) ! 5) = DescPtr 0 6
         \<and> buf (dma_desc (buffer m' ! 0) ! 3) \<noteq> NULL
         \<and> sum_list (map length_f (dma_desc (buffer m' ! 0))) = 7 * 16)"
proof -
  have h: "\<forall>n. heap_caps_malloc env_ok (StreamData 0) n" "\<forall>n. heap_caps_malloc env_ok (DmaDesc 0) n"
    "1 \<le> unat (color_depth geo3)" "unat (color_depth geo3) \<le> 8"
    "0 < unat (width geo3)" "0 < unat (rows geo3)" "0 < length (buffer geo3)"
    by (simp_all add: env_ok_def geo3_def zero_matrix_def)
  have d: "unat (color_depth geo3) = 3" "unat (width geo3) = 4" "unat (rows geo3) = 2"
    by (simp_all add: geo3_def zero_matrix_def)
  have b16: "blocks 16 = 1" by (simp add: blocks_def DMA_MAX_XFER_SIZE_def)
  from build_ring_descriptors [OF h] obtain m' where
    i: "initialize_buffer env_ok geo3 0 = Some (Inr m')"
    and r: "let N = (2 ^ unat (color_depth geo3) - 1) * blocks (2 * unat (width geo3) * unat (rows geo3));
                ds = dma_desc (buffer m' ! 0)
            in dma_desc_count m' = N \<and> length ds = N
             \<and> (\<forall>i<N. buf (ds ! i) \<noteq> NULL
                    \<and> (\<exists>off. off < length (stream_data (buffer m' ! 0))
                             \<and> buf (ds ! i) = StreamPtr 0 off))
             \<and> (\<forall>i<N. stqe_next (ds ! i) = DescPtr 0 (if i = N - 1 then 0 else i + 1))
             \<and> sum_list (map length_f ds)
                  = (2 ^ unat (color_depth geo3) - 1) * (2 * unat (width geo3) * unat (rows geo3))"
    by blast
  from r have r': "dma_desc_count m' = 7 \<and> length (dma_desc (buffer m' ! 0)) = 7
      \<and> (\<forall>i<7. buf (dma_desc (buffer m' ! 0) ! i) \<noteq> NULL)
      \<and> (\<forall>i<7. stqe_next (dma_desc (buffer m' ! 0) ! i) = DescPtr 0 (if i = 6 then 0 else i + 1))
      \<and> sum_list (map length_f (dma_desc (buffer m' ! 0))) = 7 * 16"
    by (simp add: Let_def d b16)
  then have "stqe_next (dma_desc (buffer m' ! 0) ! 6) = DescPtr 0 0"
    "stqe_next (dma_desc (buffer m' ! 0) ! 5) = DescPtr 0 6"
    "buf (dma_desc (buffer m' ! 0) ! 3) \<noteq> NULL"
    by simp_all
  with h i r' show ?thesis by blast
qed

text \<open>
  C1. For a geometry with colour depth \<open>D\<close> in \<open>[1, 8]\<close> (and \<open>W > 0\<close>, \<open>rows > 0\<close>, successful
  allocations), \<open>initialize_buffer\<close> returns, and afterwards subimage \<open>l\<close> appears exactly
  \<open>2 ^ l\<close> times in the ring for every \<open>l < D - 1\<close>, subimage \<open>D - 1\<close> appears exactly
  \<open>2 ^ (D - 1)\<close> times, and there are \<open>2 ^ D - 1\<close> appearances in all.
\<close>

theorem build_ring_appearances:
  assumes "\<forall>n. heap_caps_malloc env (StreamData b) n"
    and "\<forall>n. heap_caps_malloc env (DmaDesc b) n"
    and "1 \<le> unat (color_depth m)" and "unat (color_depth m) \<le> 8"
    and "0 < unat (width m)" and "0 < unat (rows m)" and "b < length (buffer m)"
  shows "\<exists>m'. initialize_buffer env m b = Some (Inr m')
           \<and> (\<forall>l. l < unat (color_depth m) - 1 \<longrightarrow> appearances m' b l = 2 ^ l)
           \<and> appearances m' b (unat (color_depth m) - 1) = 2 ^ (unat (color_depth m) - 1)
           \<and> (\<Sum>l<unat (color_depth m). appearances m' b l) = 2 ^ unat (color_depth m) - 1"
proof -
  let ?D = "unat (color_depth m)"
  let ?stride = "2 * unat (width m) * unat (rows m)"
  from initialize_buffer_spec [OF assms(1-6)] obtain ds where
    ib: "initialize_buffer env m b
            = Some (Inr (m\<lparr>dma_desc_count := (2 ^ ?D - 1) * blocks ?stride,
                  buffer := (buffer m)[b :=
                    \<lparr>stream_data = replicate (?stride * ?D) (if invert m then 0xff else 0),
                     dma_desc = ds\<rparr>]\<rparr>))"
    and ms: "mset (slot_bufs (blocks ?stride) ds) = placed b ?stride ?D"
    by blast
  define m' where "m' = m\<lparr>dma_desc_count := (2 ^ ?D - 1) * blocks ?stride,
                  buffer := (buffer m)[b :=
                    \<lparr>stream_data = replicate (?stride * ?D) (if invert m then 0xff else 0),
                     dma_desc = ds\<rparr>]\<rparr>"
  have ib': "initialize_buffer env m b = Some (Inr m')" using ib unfolding m'_def .
  have st: "0 < ?stride" using assms(5,6) by simp
  have ap: "appearances m' b l = (if l < ?D then 2 ^ l else 0)" for l
  proof -
    have "appearances m' b l = count (mset (slot_bufs (blocks ?stride) ds)) (StreamPtr b (?stride * l))"
      using assms(7) by (simp add: m'_def appearances_def Let_def count_mset)
    then show ?thesis unfolding ms using placed_count [OF st] by simp
  qed
  have "(\<Sum>l<?D. appearances m' b l) = (\<Sum>l<?D. 2 ^ l)"
    by (rule sum.cong) (simp_all add: ap)
  then have "(\<Sum>l<?D. appearances m' b l) = 2 ^ ?D - 1" by (simp add: sum_pow2)
  moreover have "appearances m' b (?D - 1) = 2 ^ (?D - 1)" using assms(3) by (simp add: ap)
  moreover have "\<forall>l. l < ?D - 1 \<longrightarrow> appearances m' b l = 2 ^ l" by (auto simp: ap)
  ultimately show ?thesis using ib' by blast
qed

theorem build_ring_appearances_witness:
  "(\<forall>n. heap_caps_malloc env_ok (StreamData 0) n) \<and> (\<forall>n. heap_caps_malloc env_ok (DmaDesc 0) n)
   \<and> 1 \<le> unat (color_depth geo3) \<and> unat (color_depth geo3) \<le> 8
   \<and> 0 < unat (width geo3) \<and> 0 < unat (rows geo3) \<and> 0 < length (buffer geo3)
   \<and> (\<exists>m'. initialize_buffer env_ok geo3 0 = Some (Inr m')
         \<and> appearances m' 0 0 = 1 \<and> appearances m' 0 1 = 2 \<and> appearances m' 0 2 = 4
         \<and> (\<Sum>l<3. appearances m' 0 l) = 7)"
proof -
  have h: "\<forall>n. heap_caps_malloc env_ok (StreamData 0) n" "\<forall>n. heap_caps_malloc env_ok (DmaDesc 0) n"
    "1 \<le> unat (color_depth geo3)" "unat (color_depth geo3) \<le> 8"
    "0 < unat (width geo3)" "0 < unat (rows geo3)" "0 < length (buffer geo3)"
    by (simp_all add: env_ok_def geo3_def zero_matrix_def)
  have d: "unat (color_depth geo3) = 3" by (simp add: geo3_def zero_matrix_def)
  from build_ring_appearances [OF h] obtain m' where
    i: "initialize_buffer env_ok geo3 0 = Some (Inr m')"
    and a: "\<forall>l. l < 2 \<longrightarrow> appearances m' 0 l = 2 ^ l"
    and b: "appearances m' 0 2 = 4"
    and c: "(\<Sum>l<3. appearances m' 0 l) = 7"
    unfolding d by auto
  from a have "appearances m' 0 0 = 1" "appearances m' 0 1 = 2" by auto
  with h i b c show ?thesis by blast
qed

section \<open>What init leaves behind\<close>

text \<open>
  Whenever \<open>ledmatrix_init\<close> returns, the state is initialized and satisfies \<open>rings_ok\<close>,
  the assumption of the theorems about \<open>show\<close>.
\<close>

lemma place_length: "place b cnt per stride i k ds = Some ds' \<Longrightarrow> length ds' = length ds"
  by (auto simp: place_def Let_def split: option.splits)

lemma fold_opt_inv:
  assumes "\<And>x s s'. f x s = Some s' \<Longrightarrow> P s \<Longrightarrow> P s'"
  shows "P s \<Longrightarrow> fold_opt f xs s = Some s' \<Longrightarrow> P s'"
  using assms by (induction xs arbitrary: s) (auto split: option.splits)

lemma place_levels_length:
  assumes "place_levels b cnt per stride D ds = Some ds'"
  shows "length ds' = length ds"
proof -
  have inner: "fold_opt (\<lambda>k. place b cnt per stride i k) ks s = Some s' \<Longrightarrow> length s = length ds
                \<Longrightarrow> length s' = length ds" for i ks s s'
    by (rule fold_opt_inv [where P = "\<lambda>s. length s = length ds"
          and f = "\<lambda>k. place b cnt per stride i k"]) (auto dest: place_length)
  show ?thesis
    using assms unfolding place_levels_def
    by (rule fold_opt_inv [where P = "\<lambda>s. length s = length ds", rotated 2]) (auto dest: inner)
qed

lemma fill_blocks_length:
  "fill_blocks ds i p r = Some (ds', i') \<Longrightarrow> length ds' = length ds"
proof (induction ds i p r rule: fill_blocks.induct)
  case (1 ds i p r)
  show ?case
  proof (cases "r = 0")
    case True
    with "1.prems" show ?thesis by simp
  next
    case False
    with "1.prems" have il: "i < length ds"
      by (subst (asm) fill_blocks.simps) (simp split: if_splits)
    from "1.prems" False il have
      "fill_blocks (ds[i := (ds ! i)\<lparr>buf := p, length_f := min r DMA_MAX_XFER_SIZE,
                              size_f := min r DMA_MAX_XFER_SIZE, owner := 1\<rparr>])
          (i + 1) (ptr_add p (min r DMA_MAX_XFER_SIZE)) (r - min r DMA_MAX_XFER_SIZE) = Some (ds', i')"
      by (subst (asm) fill_blocks.simps) simp
    from "1.IH" [OF False il this] show ?thesis by simp
  qed
qed


lemma fill_loop_length:
  assumes "fill_loop b cnt stride D ds i = Some ds'"
  shows "length ds' = length ds"
proof (rule fill_loop.raw_induct
    [where P = "\<lambda>b cnt stride D ds i ds'. length ds' = length ds", OF _ assms])
  fix f :: "nat \<Rightarrow> nat \<Rightarrow> nat \<Rightarrow> nat \<Rightarrow> lldesc list \<Rightarrow> nat \<Rightarrow> lldesc list option"
  fix b cnt stride D i :: nat and ds ds' :: "lldesc list"
  assume IH: "\<And>b cnt stride D ds i y. f b cnt stride D ds i = Some y \<Longrightarrow> length y = length ds"
  define A where "A = (if buf (ds ! i) = NULL
            then ds[i := (ds ! i)\<lparr>buf := StreamPtr b (size_t (int stride * (int D - 1)))\<rparr>]
            else ds)"
  define P where "P = (if buf (ds ! i) = NULL then StreamPtr b (size_t (int stride * (int D - 1)))
              else buf (ds ! i))"
  assume "(if i < cnt
           then if i < length ds
                then case fill_blocks
                       (if buf (ds ! i) = NULL
                        then ds[i := (ds ! i)\<lparr>buf := StreamPtr b (size_t (int stride * (int D - 1)))\<rparr>]
                        else ds)
                       i (if buf (ds ! i) = NULL then StreamPtr b (size_t (int stride * (int D - 1)))
                          else buf (ds ! i))
                       stride of
                     None \<Rightarrow> None
                   | Some r \<Rightarrow> f b cnt stride D (fst r) (snd r)
                else None
           else Some ds) = Some ds'"
  then have body: "(if i < cnt
           then if i < length ds
                then case fill_blocks A i P stride of
                     None \<Rightarrow> None
                   | Some r \<Rightarrow> f b cnt stride D (fst r) (snd r)
                else None
           else Some ds) = Some ds'"
    unfolding A_def P_def .
  have lenA: "length A = length ds" by (simp add: A_def)
  show "length ds' = length ds"
  proof (cases "i < cnt")
    case False
    with body show ?thesis by simp
  next
    case True
    with body obtain r where fb: "fill_blocks A i P stride = Some r"
      and fl: "f b cnt stride D (fst r) (snd r) = Some ds'"
      by (cases "fill_blocks A i P stride") (simp_all split: if_splits)
    from fb have "fill_blocks A i P stride = Some (fst r, snd r)" by simp
    then have "length (fst r) = length A" by (rule fill_blocks_length)
    with IH [OF fl] lenA show ?thesis by simp
  qed
qed

lemma length_link_ring: "length (link_ring b cnt ds) = length ds"
proof -
  have "length (fold (\<lambda>i ds. ds[i := (ds ! i)\<lparr>stqe_next := DescPtr b (i + 1)\<rparr>]) ks ds) = length ds"
    for ks by (induction ks arbitrary: ds) simp_all
  then show ?thesis by (simp add: link_ring_def Let_def)
qed

lemma place_levels_nonempty:
  assumes "place_levels b cnt per stride D ds = Some ds'" and "2 \<le> D" and "D < 31"
  shows "ds \<noteq> []"
proof
  assume e: "ds = []"
  have "find_free [] per cnt pos = None" for pos
    by (subst find_free.simps) simp
  then have p: "place b cnt per stride 0 0 [] = None"
    by (simp add: place_def Let_def)
  have "size_t (int D - 1) = D - 1"
    using assms(2,3) by (intro size_t_pred) simp_all
  then obtain n where n: "size_t (int D - 1) = Suc n" using assms(2) by (cases "D - 1") simp_all
  have one: "size_t (2 ^ 0) = 1" by (simp add: size_t_def)
  have "place_levels b cnt per stride D [] = None"
    unfolding place_levels_def n upt_conv_Cons [OF zero_less_Suc] fold_opt.simps one
    using p by simp
  with assms(1) e show False by simp
qed

lemma initialize_buffer_ring:
  assumes "initialize_buffer env m b = Some (Inr m')" and "color_depth m \<noteq> 0"
  shows "\<exists>sd ds. m' = m\<lparr>dma_desc_count := ring_size m,
                       buffer := (buffer m)[b := \<lparr>stream_data = sd, dma_desc = ds\<rparr>]\<rparr>
           \<and> length ds = ring_size m \<and> 0 < ring_size m \<and> ring_size m < 2 ^ 32"
proof -
  let ?D = "unat (color_depth m)"
  let ?stride = "2 * unat (width m) * unat (rows m)"
  let ?per = "size_t (int ?stride - 1) div DMA_MAX_XFER_SIZE + 1"
  let ?cnt = "ring_size m"
  from assms(1) have D31: "?D < 31"
    by (auto simp: initialize_buffer_def Let_def split: if_splits)
  from assms(2) have D0: "0 < ?D" by (simp add: unat_gt_0)
  from assms(1) D31 obtain ds1 ds2 where
    pl: "place_levels b ?cnt ?per ?stride ?D (replicate ?cnt zero_desc) = Some ds1"
    and fl: "fill_loop b ?cnt ?stride ?D ds1 0 = Some ds2"
    and m': "m' = m\<lparr>dma_desc_count := ?cnt,
                    buffer := (buffer m)[b :=
                      \<lparr>stream_data = replicate (size_t (int ?stride * int ?D)) (if invert m then 0xff else 0),
                       dma_desc = link_ring b ?cnt ds2\<rparr>]\<rparr>"
    by (auto simp: initialize_buffer_def ring_size_def Let_def split: if_splits option.splits)
  have len: "length (link_ring b ?cnt ds2) = ?cnt"
    using place_levels_length [OF pl] fill_loop_length [OF fl] by (simp add: length_link_ring)
  have lt: "?cnt < 2 ^ 32" by (simp add: ring_size_def size_t_def)
  have pos: "0 < ?cnt"
  proof (cases "?D = 1")
    case True
    have "size_t (int ?stride - 1) < 2 ^ 32" by (simp add: size_t_def)
    then have "?per < 2 ^ 32" by (simp add: DMA_MAX_XFER_SIZE_def)
    then have "size_t (int ?per) = ?per" by (rule size_t_nat)
    then show ?thesis using True by (simp add: ring_size_def)
  next
    case False
    with D0 have "2 \<le> ?D" by simp
    from place_levels_nonempty [OF pl this D31] show ?thesis by simp
  qed
  from m' len lt pos show ?thesis by blast
qed

lemma ring_size_upd [simp]:
  "ring_size (m\<lparr>buffer := bs\<rparr>) = ring_size m"
  "ring_size (m\<lparr>dma_desc_count := c\<rparr>) = ring_size m"
  by (simp_all add: ring_size_def)

lemma init_config_state:
  assumes "init_config n a = Inr (m, cfg)"
  shows "color_depth m \<noteq> 0 \<and> length (buffer m) = 2 \<and> backbuffer m = 0
       \<and> double_buffer m = arg_double_buffer a"
  using assms
  by (auto simp: init_config_def Let_def zero_matrix_def split: if_splits sum.splits prod.splits)

lemma init_rings_ok:
  assumes "ledmatrix_init env a = Some (Inr m)"
  shows "rings_ok m \<and> initialized m"
proof -
  from assms obtain m0 cfg where c: "init_config (gpios_bus_size env) a = Inr (m0, cfg)"
    by (auto simp: ledmatrix_init_def split: sum.splits)
  from init_config_state [OF c] have d0: "color_depth m0 \<noteq> 0" and l0: "length (buffer m0) = 2"
    and b0: "backbuffer m0 = 0" by simp_all
  from assms c obtain m1 where i1: "initialize_buffer env m0 0 = Some (Inr m1)"
    by (auto simp: ledmatrix_init_def split: sum.splits option.splits)
  from initialize_buffer_ring [OF i1 d0] obtain sd1 ds1 where
    m1: "m1 = m0\<lparr>dma_desc_count := ring_size m0,
                  buffer := (buffer m0)[0 := \<lparr>stream_data = sd1, dma_desc = ds1\<rparr>]\<rparr>"
    and r1: "length ds1 = ring_size m0" "0 < ring_size m0" "ring_size m0 < 2 ^ 32" by blast
  show ?thesis
  proof (cases "double_buffer m1")
    case False
    with assms c i1 have "m = (create_control_pattern m1 0)\<lparr>initialized := True\<rparr>"
      by (auto simp: ledmatrix_init_def split: if_splits dest: start_dma_Inr)
    with m1 r1 l0 b0 False show ?thesis
      by (simp add: create_control_pattern_def rings_ok_def)
  next
    case True
    let ?m1c = "create_control_pattern m1 0"
    from True assms c i1 obtain m2 where
      i2: "initialize_buffer env ?m1c 1 = Some (Inr m2)"
      and m: "m = (create_control_pattern m2 1)\<lparr>backbuffer := 1, initialized := True\<rparr>"
      by (auto simp: ledmatrix_init_def split: if_splits option.splits sum.splits
          dest: start_dma_Inr)
    have d1: "color_depth ?m1c \<noteq> 0" using d0 m1 by (simp add: create_control_pattern_def)
    have rs: "ring_size ?m1c = ring_size m0" using m1 by (simp add: create_control_pattern_def)
    from initialize_buffer_ring [OF i2 d1] obtain sd2 ds2 where
      m2: "m2 = ?m1c\<lparr>dma_desc_count := ring_size ?m1c,
                  buffer := (buffer ?m1c)[1 := \<lparr>stream_data = sd2, dma_desc = ds2\<rparr>]\<rparr>"
      and r2: "length ds2 = ring_size ?m1c" by blast
    from m m2 m1 r1 r2 rs l0 True show ?thesis
      by (cases "buffer m0"; cases "tl (buffer m0)")
         (auto simp: create_control_pattern_def rings_ok_def)
  qed
qed

section \<open>set_brightness on the streams that init allocates\<close>

lemma init_db4: "ledmatrix_init env_ok db4_args = Some (Inr db4_matrix)"
  by code_simp

lemma initialize_buffer_stream:
  assumes "initialize_buffer env m b = Some (Inr m')"
  shows "\<exists>ds. m' = m\<lparr>dma_desc_count := ring_size m,
                    buffer := (buffer m)[b :=
                      \<lparr>stream_data = replicate (unat (color_depth m) * (2 * unat (width m) * unat (rows m)))
                                       (if invert m then 0xff else 0),
                       dma_desc = ds\<rparr>]\<rparr>"
proof -
  let ?D = "unat (color_depth m)"
  let ?stride = "2 * unat (width m) * unat (rows m)"
  from assms have D31: "?D < 31"
    by (auto simp: initialize_buffer_def Let_def split: if_splits)
  from assms D31 obtain ds where
    m': "m' = m\<lparr>dma_desc_count := ring_size m,
                    buffer := (buffer m)[b :=
                      \<lparr>stream_data = replicate (size_t (int ?stride * int ?D)) (if invert m then 0xff else 0),
                       dma_desc = ds\<rparr>]\<rparr>"
    by (auto simp: initialize_buffer_def ring_size_def Let_def split: if_splits option.splits)
  have "?stride \<le> 33422850" by (rule stride_bound)
  moreover from D31 have "?D \<le> 30" by simp
  ultimately have "?stride * ?D \<le> 33422850 * 30" by (rule mult_le_mono)
  then have "?stride * ?D < 2 ^ 32" by simp
  then have "size_t (int (?stride * ?D)) = ?stride * ?D" by (rule size_t_nat)
  then have eq: "size_t (int ?stride * int ?D) = ?D * ?stride" by (simp add: mult.commute)
  from m' show ?thesis unfolding eq by blast
qed

lemma init_streams_ok:
  assumes "ledmatrix_init env a = Some (Inr m)"
  shows "streams_ok m"
proof -
  from assms obtain m0 cfg where c: "init_config (gpios_bus_size env) a = Inr (m0, cfg)"
    by (auto simp: ledmatrix_init_def split: sum.splits)
  from init_config_state [OF c] have l0: "length (buffer m0) = 2" by simp
  from assms c obtain m1 where i1: "initialize_buffer env m0 0 = Some (Inr m1)"
    by (auto simp: ledmatrix_init_def split: sum.splits option.splits)
  from initialize_buffer_stream [OF i1] obtain ds1 where
    m1: "m1 = m0\<lparr>dma_desc_count := ring_size m0,
                  buffer := (buffer m0)[0 :=
                    \<lparr>stream_data = replicate (unat (color_depth m0) * (2 * unat (width m0) * unat (rows m0)))
                                     (if invert m0 then 0xff else 0),
                     dma_desc = ds1\<rparr>]\<rparr>" by blast
  show ?thesis
  proof (cases "double_buffer m1")
    case False
    with assms c i1 have "m = (create_control_pattern m1 0)\<lparr>initialized := True\<rparr>"
      by (auto simp: ledmatrix_init_def split: if_splits dest: start_dma_Inr)
    with m1 l0 False show ?thesis
      by (simp add: create_control_pattern_def streams_ok_def length_control_pass)
  next
    case True
    let ?m1c = "create_control_pattern m1 0"
    from True assms c i1 obtain m2 where
      i2: "initialize_buffer env ?m1c 1 = Some (Inr m2)"
      and m: "m = (create_control_pattern m2 1)\<lparr>backbuffer := 1, initialized := True\<rparr>"
      by (auto simp: ledmatrix_init_def split: if_splits option.splits sum.splits
          dest: start_dma_Inr)
    from initialize_buffer_stream [OF i2] obtain ds2 where
      m2: "m2 = ?m1c\<lparr>dma_desc_count := ring_size ?m1c,
                  buffer := (buffer ?m1c)[1 :=
                    \<lparr>stream_data = replicate (unat (color_depth ?m1c) * (2 * unat (width ?m1c) * unat (rows ?m1c)))
                                     (if invert ?m1c then 0xff else 0),
                     dma_desc = ds2\<rparr>]\<rparr>" by blast
    have f: "color_depth ?m1c = color_depth m0" "width ?m1c = width m0" "rows ?m1c = rows m0"
      using m1 by (simp_all add: create_control_pattern_def)
    from m m2 m1 l0 True f show ?thesis
      by (cases "buffer m0"; cases "tl (buffer m0)")
         (auto simp: create_control_pattern_def streams_ok_def length_control_pass)
  qed
qed

text \<open>
  C8 (as amended). While initialized and with the streams allocated, \<open>set_brightness(v)\<close>
  for a small int \<open>v\<close> with \<open>0 \<le> v \<le> width - 2\<close> stores \<open>brightness = v + 1\<close> and re-runs
  the control-byte pass with the new brightness on buffer 0, and on buffer 1 as well when
  double-buffered: every control byte of these streams becomes the control byte for the
  new brightness, and every colour byte stays. For every small int \<open>v\<close> outside that range
  it raises the \<open>ValueError\<close> "Brightness must be between 0 and width - 2": it does not
  clamp. For an argument that is not a small int it raises the \<open>TypeError\<close>
  "expected small int".
\<close>

theorem set_brightness_range:
  assumes "initialized m" and "length (buffer m) = 2" and "streams_ok m"
  shows "ledmatrix_set_brightness m Obj = Inl (TypeError ''expected small int'')
       \<and> (if 0 \<le> v \<and> v \<le> uint (width m) - 2
          then \<exists>m'. ledmatrix_set_brightness m (SmallInt v) = Inr m'
                 \<and> uint (brightness m') = v + 1
                 \<and> initialized m' \<and> length (buffer m') = 2 \<and> streams_ok m'
                 \<and> stream_data (buffer m' ! 0) = control_pass m' (stream_data (buffer m ! 0))
                 \<and> stream_data (buffer m' ! 1)
                     = (if double_buffer m then control_pass m' (stream_data (buffer m ! 1))
                        else stream_data (buffer m ! 1))
                 \<and> (\<forall>b l row pixel.
                      (b = 0 \<or> b = 1 \<and> double_buffer m) \<and> l < unat (color_depth m)
                      \<and> row < unat (rows m) \<and> pixel < unat (width m) \<longrightarrow>
                        stream_data (buffer m' ! b) ! (px_offset m l row pixel + BITSTREAM_CTRL_BYTE)
                          = control_byte m' row pixel
                      \<and> stream_data (buffer m' ! b) ! (px_offset m l row pixel + BITSTREAM_COLOR_BYTE)
                          = stream_data (buffer m ! b) ! (px_offset m l row pixel + BITSTREAM_COLOR_BYTE))
          else ledmatrix_set_brightness m (SmallInt v)
                 = Inl (ValueError ''Brightness must be between 0 and width - 2''))"
proof -
  let ?n = "unat (color_depth m) * (2 * unat (width m) * unat (rows m))"
  have ty: "ledmatrix_set_brightness m Obj = Inl (TypeError ''expected small int'')"
    using assms(1) by (simp add: ledmatrix_set_brightness_def)
  show ?thesis
  proof (cases "0 \<le> v \<and> v \<le> uint (width m) - 2")
    case False
    with assms(1) ty show ?thesis
      by (auto simp add: ledmatrix_set_brightness_def)
  next
    case True
    then have v: "0 \<le> v" "v \<le> uint (width m) - 2" by simp_all
    from set_brightness_result [OF assms(1,2) v] obtain m' where
      r: "ledmatrix_set_brightness m (SmallInt v) = Inr m'"
      and br: "brightness m' = of_int (v + 1)"
      and f: "width m' = width m" "rows m' = rows m" "color_depth m' = color_depth m"
      and db: "double_buffer m' = double_buffer m"
      and i: "initialized m'" "length (buffer m') = 2"
      and s0: "stream_data (buffer m' ! 0) = control_pass m' (stream_data (buffer m ! 0))"
      and s1: "stream_data (buffer m' ! 1)
               = (if double_buffer m then control_pass m' (stream_data (buffer m ! 1))
                  else stream_data (buffer m ! 1))"
      by blast
    have u: "uint (brightness m') = v + 1"
      unfolding br using v by (rule uint_brightness_store)
    have px: "px_offset m' = px_offset m"
      using f by (simp add: px_offset_def fun_eq_iff)
    from assms(3) have n0: "length (stream_data (buffer m ! 0)) = ?n"
      and n1: "double_buffer m \<Longrightarrow> length (stream_data (buffer m ! 1)) = ?n"
      by (simp_all add: streams_ok_def)
    have so: "streams_ok m'"
      using n0 n1 s0 s1 f db by (simp add: streams_ok_def length_control_pass)
    have bytes: "stream_data (buffer m' ! b) ! (px_offset m l row pixel + BITSTREAM_CTRL_BYTE)
                   = control_byte m' row pixel
               \<and> stream_data (buffer m' ! b) ! (px_offset m l row pixel + BITSTREAM_COLOR_BYTE)
                   = stream_data (buffer m ! b) ! (px_offset m l row pixel + BITSTREAM_COLOR_BYTE)"
      if h: "b = 0 \<or> b = 1 \<and> double_buffer m" "l < unat (color_depth m)"
        "row < unat (rows m)" "pixel < unat (width m)" for b l row pixel
    proof -
      let ?sd = "stream_data (buffer m ! b)"
      from h(1) s0 s1 have s: "stream_data (buffer m' ! b) = control_pass m' ?sd" by auto
      from h(1) n0 n1 have "length ?sd = ?n" by auto
      then have len: "unat (color_depth m') * (2 * unat (width m') * unat (rows m')) \<le> length ?sd"
        using f by simp
      from h(2-4) f have h': "l < unat (color_depth m')" "row < unat (rows m')"
        "pixel < unat (width m')" by simp_all
      from control_pass_nth [OF h' len]
      have c: "control_pass m' ?sd ! (px_offset m l row pixel + BITSTREAM_CTRL_BYTE)
                 = control_byte m' row pixel"
        by (simp add: px)
      have e: "control_pass m' ?sd ! (px_offset m l row pixel + BITSTREAM_COLOR_BYTE)
                 = ?sd ! (px_offset m l row pixel + BITSTREAM_COLOR_BYTE)"
        unfolding px_offset_even BITSTREAM_COLOR_BYTE_def add_0_right
        by (rule control_pass_even)
      from c e s show ?thesis by simp
    qed
    from True ty r u i so s0 s1 bytes show ?thesis by auto
  qed
qed

theorem set_brightness_range_witness:
  "initialized db4_matrix \<and> length (buffer db4_matrix) = 2 \<and> streams_ok db4_matrix
   \<and> double_buffer db4_matrix \<and> width db4_matrix = 4 \<and> brightness db4_matrix = 3
   \<and> stream_data (buffer db4_matrix ! 0)
       = [0, 0xFD, 0, 0xFD, 0, 0xFE, 0, 0xFC, 0, 1, 0, 1, 0, 2, 0, 0]
   \<and> stream_data (buffer db4_matrix ! 1)
       = [0, 0xFD, 0, 0xFD, 0, 0xFE, 0, 0xFC, 0, 1, 0, 1, 0, 2, 0, 0]
   \<and> ledmatrix_set_brightness db4_matrix Obj = Inl (TypeError ''expected small int'')
   \<and> (\<exists>m'. ledmatrix_set_brightness db4_matrix (SmallInt 1) = Inr m'
          \<and> uint (brightness m') = 2 \<and> streams_ok m'
          \<and> stream_data (buffer m' ! 0)
              = [0, 0xFD, 0, 0xFD, 0, 0xFE, 0, 0xFD, 0, 1, 0, 1, 0, 2, 0, 1]
          \<and> stream_data (buffer m' ! 1)
              = [0, 0xFD, 0, 0xFD, 0, 0xFE, 0, 0xFD, 0, 1, 0, 1, 0, 2, 0, 1])
   \<and> ledmatrix_set_brightness db4_matrix (SmallInt 3)
        = Inl (ValueError ''Brightness must be between 0 and width - 2'')
   \<and> initialized dim_matrix \<and> length (buffer dim_matrix) = 2 \<and> streams_ok dim_matrix
   \<and> \<not> double_buffer dim_matrix \<and> width dim_matrix = 4 \<and> brightness dim_matrix = 3
   \<and> stream_data (buffer dim_matrix ! 0) = [0, 0xFD, 0, 0xFD, 0, 0xFE, 0, 0xFC]
   \<and> stream_data (buffer dim_matrix ! 1) = []
   \<and> (\<exists>m'. ledmatrix_set_brightness dim_matrix (SmallInt 0) = Inr m'
          \<and> uint (brightness m') = 1 \<and> streams_ok m'
          \<and> stream_data (buffer m' ! 0) = [0, 0xFD, 0, 0xFD, 0, 0xFF, 0, 0xFD]
          \<and> stream_data (buffer m' ! 1) = [])"
proof -
  have h: "initialized db4_matrix" "length (buffer db4_matrix) = 2" "streams_ok db4_matrix"
    using init_rings_ok [OF init_db4] init_streams_ok [OF init_db4]
    by (simp_all add: rings_ok_def)
  have c: "double_buffer db4_matrix \<and> width db4_matrix = 4 \<and> brightness db4_matrix = 3
     \<and> stream_data (buffer db4_matrix ! 0)
         = [0, 0xFD, 0, 0xFD, 0, 0xFE, 0, 0xFC, 0, 1, 0, 1, 0, 2, 0, 0]
     \<and> stream_data (buffer db4_matrix ! 1)
         = [0, 0xFD, 0, 0xFD, 0, 0xFE, 0, 0xFC, 0, 1, 0, 1, 0, 2, 0, 0]"
    by code_simp
  have p: "control_pass (db4_matrix\<lparr>brightness := 2\<rparr>)
             [0, 0xFD, 0, 0xFD, 0, 0xFE, 0, 0xFC, 0, 1, 0, 1, 0, 2, 0, 0]
           = [0, 0xFD, 0, 0xFD, 0, 0xFE, 0, 0xFD, 0, 1, 0, 1, 0, 2, 0, 1]"
    by code_simp
  from set_brightness_range [OF h, of 1] obtain m' where
    r: "ledmatrix_set_brightness db4_matrix (SmallInt 1) = Inr m'"
    and b: "uint (brightness m') = 2" and so: "streams_ok m'"
    and s0: "stream_data (buffer m' ! 0) = control_pass m' (stream_data (buffer db4_matrix ! 0))"
    and s1: "stream_data (buffer m' ! 1) = control_pass m' (stream_data (buffer db4_matrix ! 1))"
    using c by auto
  from set_brightness_result [of db4_matrix 1] h c r
  have f: "brightness m' = 2" "width m' = width db4_matrix" "rows m' = rows db4_matrix"
    "color_depth m' = color_depth db4_matrix" "invert m' = invert db4_matrix"
    by auto
  have "control_pass m' = control_pass (db4_matrix\<lparr>brightness := 2\<rparr>)"
    by (rule control_fields_cong) (simp_all add: f)
  with s0 s1 c p have
    "stream_data (buffer m' ! 0) = [0, 0xFD, 0, 0xFD, 0, 0xFE, 0, 0xFD, 0, 1, 0, 1, 0, 2, 0, 1]"
    "stream_data (buffer m' ! 1) = [0, 0xFD, 0, 0xFD, 0, 0xFE, 0, 0xFD, 0, 1, 0, 1, 0, 2, 0, 1]"
    by simp_all
  with r b so have ex: "\<exists>m'. ledmatrix_set_brightness db4_matrix (SmallInt 1) = Inr m'
          \<and> uint (brightness m') = 2 \<and> streams_ok m'
          \<and> stream_data (buffer m' ! 0)
              = [0, 0xFD, 0, 0xFD, 0, 0xFE, 0, 0xFD, 0, 1, 0, 1, 0, 2, 0, 1]
          \<and> stream_data (buffer m' ! 1)
              = [0, 0xFD, 0, 0xFD, 0, 0xFE, 0, 0xFD, 0, 1, 0, 1, 0, 2, 0, 1]"
    by blast
  from set_brightness_range [OF h, of 3] c
  have e: "ledmatrix_set_brightness db4_matrix Obj = Inl (TypeError ''expected small int'')"
    "ledmatrix_set_brightness db4_matrix (SmallInt 3)
        = Inl (ValueError ''Brightness must be between 0 and width - 2'')"
    by simp_all
  have hd: "initialized dim_matrix" "length (buffer dim_matrix) = 2" "streams_ok dim_matrix"
    using init_rings_ok [OF init_dim] init_streams_ok [OF init_dim]
    by (simp_all add: rings_ok_def)
  have cd: "\<not> double_buffer dim_matrix \<and> width dim_matrix = 4 \<and> brightness dim_matrix = 3
     \<and> stream_data (buffer dim_matrix ! 0) = [0, 0xFD, 0, 0xFD, 0, 0xFE, 0, 0xFC]
     \<and> stream_data (buffer dim_matrix ! 1) = []"
    by code_simp
  have pd: "control_pass (dim_matrix\<lparr>brightness := 1\<rparr>) [0, 0xFD, 0, 0xFD, 0, 0xFE, 0, 0xFC]
           = [0, 0xFD, 0, 0xFD, 0, 0xFF, 0, 0xFD]"
    by code_simp
  from set_brightness_range [OF hd, of 0] obtain n' where
    rd: "ledmatrix_set_brightness dim_matrix (SmallInt 0) = Inr n'"
    and bd: "uint (brightness n') = 1" and sod: "streams_ok n'"
    and d0: "stream_data (buffer n' ! 0) = control_pass n' (stream_data (buffer dim_matrix ! 0))"
    and d1: "stream_data (buffer n' ! 1) = stream_data (buffer dim_matrix ! 1)"
    using cd by auto
  from set_brightness_result [of dim_matrix 0] hd cd rd
  have fd: "brightness n' = 1" "width n' = width dim_matrix" "rows n' = rows dim_matrix"
    "color_depth n' = color_depth dim_matrix" "invert n' = invert dim_matrix"
    by auto
  have "control_pass n' = control_pass (dim_matrix\<lparr>brightness := 1\<rparr>)"
    by (rule control_fields_cong) (simp_all add: fd)
  with d0 d1 cd pd have
    "stream_data (buffer n' ! 0) = [0, 0xFD, 0, 0xFD, 0, 0xFF, 0, 0xFD]"
    "stream_data (buffer n' ! 1) = []"
    by simp_all
  with rd bd sod have exd: "\<exists>m'. ledmatrix_set_brightness dim_matrix (SmallInt 0) = Inr m'
          \<and> uint (brightness m') = 1 \<and> streams_ok m'
          \<and> stream_data (buffer m' ! 0) = [0, 0xFD, 0, 0xFD, 0, 0xFF, 0, 0xFD]
          \<and> stream_data (buffer m' ! 1) = []"
    by blast
  from h c ex e hd cd exd show ?thesis by simp
qed

text \<open>
  C8 as stated fails: on a panel of width 4, \<open>set_brightness(7)\<close> and \<open>set_brightness(-1)\<close>
  raise the \<open>ValueError\<close> and store nothing.
\<close>

theorem set_brightness_clamp_counterexample:
  "initialized db4_matrix \<and> width db4_matrix = 4
   \<and> ledmatrix_set_brightness db4_matrix (SmallInt 7)
       = Inl (ValueError ''Brightness must be between 0 and width - 2'')
   \<and> ledmatrix_set_brightness db4_matrix (SmallInt (- 1))
       = Inl (ValueError ''Brightness must be between 0 and width - 2'')"
  by code_simp

end
